theory Spec2Isabelle
  imports Complex_Main "HOL-Library.Sublist"
begin

section \<open>Strings of the program\<close>

text \<open>
  The program is JavaScript: a string is a sequence of UTF-16 code units, and \<open>length\<close>,
  \<open>slice\<close>, \<open>split\<close>, \<open>includes\<close> and the regular expressions of \<open>index.js\<close> (none has the
  \<open>u\<close> flag) all work on code units. A code unit is modelled by its number; every theorem
  below holds for all lists of numbers, so in particular for all lists of 16-bit units.
\<close>

type_synonym jschar = nat
type_synonym jsstring = "jschar list"

definition units :: "string \<Rightarrow> jsstring" where
  \<comment> \<open>an ASCII literal of the source as code units\<close>
  "units = map of_char"

abbreviation TAB :: jschar where "TAB \<equiv> 9"
abbreviation LF :: jschar where "LF \<equiv> 10"
abbreviation CR :: jschar where "CR \<equiv> 13"
abbreviation SP :: jschar where "SP \<equiv> 32"

definition isWhiteSpace :: "jschar \<Rightarrow> bool" where
  \<comment> \<open>what \<open>String.prototype.trim\<close> strips: ECMAScript WhiteSpace and LineTerminator\<close>
  "isWhiteSpace c \<longleftrightarrow>
     c = 0x09 \<or> c = 0x0A \<or> c = 0x0B \<or> c = 0x0C \<or> c = 0x0D \<or> c = 0x20 \<or> c = 0xA0 \<or>
     c = 0x1680 \<or> (0x2000 \<le> c \<and> c \<le> 0x200A) \<or> c = 0x2028 \<or> c = 0x2029 \<or>
     c = 0x202F \<or> c = 0x205F \<or> c = 0x3000 \<or> c = 0xFEFF"

definition trimStart :: "jsstring \<Rightarrow> jsstring" where
  "trimStart s = dropWhile isWhiteSpace s"

definition trimEnd :: "jsstring \<Rightarrow> jsstring" where
  "trimEnd s = rev (dropWhile isWhiteSpace (rev s))"

definition trim :: "jsstring \<Rightarrow> jsstring" where
  \<comment> \<open>\<open>s.trim()\<close> strips both ends\<close>
  "trim s = trimEnd (trimStart s)"

definition isDigit :: "jschar \<Rightarrow> bool" where
  \<comment> \<open>the class \<open>\\d\<close>: the ASCII digits\<close>
  "isDigit c \<longleftrightarrow> 0x30 \<le> c \<and> c \<le> 0x39"

definition lowerUnit :: "jschar \<Rightarrow> jsstring" where
  \<comment> \<open>\<open>toLowerCase\<close> on one code unit. Exact for every unit of U+0000..U+00FF and for the
      five other units whose image meets that range (U+0130 gives \<open>i\<close> followed by U+0307,
      U+0178, U+1E9E, U+212A, U+212B). A unit whose image lies wholly outside U+0000..U+00FF
      is left as it is: the marker phrases of \<open>looksLikeJunk\<close> and the suffix \<open>.pdf\<close> of
      \<open>listPdfs\<close>, the only texts compared with a lower-cased string, consist of units of
      U+0000..U+00FF.\<close>
  "lowerUnit c =
     (if 0x41 \<le> c \<and> c \<le> 0x5A then [c + 32]
      else if 0xC0 \<le> c \<and> c \<le> 0xDE \<and> c \<noteq> 0xD7 then [c + 32]
      else if c = 0x130 then [0x69, 0x307]
      else if c = 0x178 then [0xFF]
      else if c = 0x1E9E then [0xDF]
      else if c = 0x212A then [0x6B]
      else if c = 0x212B then [0xE5]
      else [c])"

definition toLowerCase :: "jsstring \<Rightarrow> jsstring" where
  "toLowerCase s = concat (map lowerUnit s)"

fun strIncludes :: "jsstring \<Rightarrow> jsstring \<Rightarrow> bool" where
  \<comment> \<open>\<open>s.includes(h)\<close>: \<open>h\<close> occurs in \<open>s\<close> at some position\<close>
  "strIncludes [] h = (h = [])"
| "strIncludes (c # cs) h = (prefix h (c # cs) \<or> strIncludes cs h)"

fun split :: "jsstring \<Rightarrow> jsstring \<Rightarrow> jsstring \<Rightarrow> jsstring list" where
  \<comment> \<open>\<open>s.split(sep)\<close> for a non-empty separator (the source splits on \<open>"\\n"\<close> and
      \<open>"\\n\\n"\<close>): cut at each occurrence found from the left, occurrences not overlapping.
      The second argument is the piece read so far, reversed.\<close>
  "split sep acc [] = [rev acc]"
| "split sep acc (c # cs) =
     (if sep \<noteq> [] \<and> prefix sep (c # cs)
      then rev acc # split sep [] (drop (length sep - 1) cs)
      else split sep (c # acc) cs)"

fun join :: "jsstring \<Rightarrow> jsstring list \<Rightarrow> jsstring" where
  "join sep [] = []"
| "join sep [x] = x"
| "join sep (x # y # ys) = x @ sep @ join sep (y # ys)"

definition elemAt :: "'a list \<Rightarrow> nat \<Rightarrow> 'a option" where
  \<comment> \<open>\<open>arr[i]\<close>: \<open>undefined\<close> (here \<open>None\<close>) past the end\<close>
  "elemAt xs i = (if i < length xs then Some (xs ! i) else None)"

fun filterBoolean :: "jsstring option list \<Rightarrow> jsstring list" where
  \<comment> \<open>\<open>.filter(Boolean)\<close> on strings and \<open>undefined\<close>: drops \<open>undefined\<close> and \<open>""\<close>\<close>
  "filterBoolean [] = []"
| "filterBoolean (None # xs) = filterBoolean xs"
| "filterBoolean (Some x # xs) = (if x = [] then filterBoolean xs else x # filterBoolean xs)"

section \<open>The text normalizer\<close>

definition isBlank :: "jschar \<Rightarrow> bool" where
  \<comment> \<open>the class \<open>[ \\t]\<close>\<close>
  "isBlank c \<longleftrightarrow> c = SP \<or> c = TAB"

definition replaceCR :: "jsstring \<Rightarrow> jsstring" where
  \<comment> \<open>\<open>.replace(/\\r/g, " ")\<close>\<close>
  "replaceCR s = map (\<lambda>c. if c = CR then SP else c) s"

function replaceBlanks :: "jsstring \<Rightarrow> jsstring" where
  \<comment> \<open>\<open>.replace(/[ \\t]+/g, " ")\<close>: each maximal run of spaces and tabs becomes one space\<close>
  "replaceBlanks [] = []"
| "replaceBlanks (c # cs) =
     (if isBlank c then SP # replaceBlanks (dropWhile isBlank cs)
      else c # replaceBlanks cs)"
  by pat_completeness auto
termination
  by (relation "measure length") (auto simp: less_Suc_eq_le length_dropWhile_le)

function replaceNewlines :: "jsstring \<Rightarrow> jsstring" where
  \<comment> \<open>\<open>.replace(/\\n{3,}/g, "\\n\\n")\<close>: the greedy match at a position takes the whole run of
      newlines starting there, if it has at least three; otherwise the unit is kept and
      the search moves on by one\<close>
  "replaceNewlines [] = []"
| "replaceNewlines (c # cs) =
     (if c = LF \<and> 2 \<le> length (takeWhile (\<lambda>x. x = LF) cs)
      then LF # LF # replaceNewlines (dropWhile (\<lambda>x. x = LF) cs)
      else c # replaceNewlines cs)"
  by pat_completeness auto
termination
  by (relation "measure length") (auto simp: less_Suc_eq_le length_dropWhile_le)

definition normalizeText :: "jsstring \<Rightarrow> jsstring" where
  "normalizeText t = trim (replaceNewlines (replaceBlanks (replaceCR t)))"

section \<open>The junk classifier\<close>

definition junkHints :: "jsstring list" where
  "junkHints =
     [units ''isbn'',
      units ''copyright'',
      units ''todos los derechos reservados'',
      0xED # units ''ndice'',
      units ''indice'',
      units ''tabla'',
      units ''cap'' @ 0xED # units ''tulo'',
      units ''capitulo'',
      units ''contenido'',
      units ''contents'']"

definition digitRule :: "jsstring \<Rightarrow> bool" where
  \<comment> \<open>\<open>digits / fragment.length > 0.08\<close>. The quotient of two integers below \<open>2^53\<close> and the
      literal are both correctly rounded doubles, and a quotient \<open>d / n\<close> with \<open>n\<close> below
      \<open>2^30\<close> (the longest string) that is not \<open>2/25\<close> differs from it by far more than one
      rounding step, so the comparison of doubles is the comparison of the fractions.\<close>
  "digitRule fragment \<longleftrightarrow> 100 * length (filter isDigit fragment) > 8 * length fragment"

definition lineRule :: "jsstring \<Rightarrow> bool" where
  \<comment> \<open>the line-shape rule; \<open>shortLines / lines.length > 0.6\<close> is exact for the same reason\<close>
  "lineRule fragment =
     (let lines = filterBoolean (map Some (split [LF] [] fragment));
          shortLines = length (filter (\<lambda>l. length (trim l) < 30) lines)
      in length lines \<ge> 8 \<and> 10 * shortLines > 6 * length lines)"

definition looksLikeJunk :: "jsstring \<Rightarrow> bool" where
  "looksLikeJunk fragment =
     (let s = toLowerCase fragment in
      if length fragment < 220 then True
      else if list_ex (\<lambda>h. strIncludes s h) junkHints then True
      else if digitRule fragment then True
      else if lineRule fragment then True
      else False)"

section \<open>The fragment selector\<close>

definition randomIndex :: "nat \<Rightarrow> nat \<Rightarrow> nat" where
  \<comment> \<open>\<open>Math.floor(Math.random() * n)\<close> for \<open>n > 0\<close>: \<open>Math.random()\<close> lies in \<open>[0, 1)\<close>, so the
      result is some index below \<open>n\<close>, and every such index can come out. The first argument
      is the draw, chosen by the environment.\<close>
  "randomIndex draw n = draw mod n"

definition paragraphs :: "jsstring \<Rightarrow> jsstring list" where
  \<comment> \<open>\<open>text.split("\\n\\n").map((p) => p.trim()).filter(Boolean)\<close>\<close>
  "paragraphs text = filterBoolean (map (Some \<circ> trim) (split [LF, LF] [] text))"

definition window :: "jsstring list \<Rightarrow> nat \<Rightarrow> jsstring" where
  \<comment> \<open>\<open>[paras[i], paras[i + 1], paras[i + 2]].filter(Boolean).join("\\n\\n")\<close>\<close>
  "window paras i = join [LF, LF] (filterBoolean [elemAt paras i, elemAt paras (i + 1), elemAt paras (i + 2)])"

definition clipped :: "jsstring list \<Rightarrow> nat \<Rightarrow> jsstring" where
  \<comment> \<open>\<open>window.slice(0, 1600)\<close>\<close>
  "clipped paras i = take 1600 (window paras i)"

function attempts :: "(nat \<Rightarrow> nat) \<Rightarrow> jsstring list \<Rightarrow> nat \<Rightarrow> jsstring option" where
  \<comment> \<open>the loop \<open>for (let attempt = 0; attempt < 12; attempt++)\<close> from \<open>attempt\<close> on;
      \<open>rnd attempt\<close> is the draw of that attempt\<close>
  "attempts rnd paras attempt =
     (if attempt < 12 then
        (let i = randomIndex (rnd attempt) (length paras);
             c = clipped paras i
         in if \<not> looksLikeJunk c then Some c
            else attempts rnd paras (attempt + 1))
      else None)"
  by pat_completeness auto
termination
  by (relation "measure (\<lambda>(rnd, paras, attempt). 12 - attempt)") auto

definition pickFragment :: "(nat \<Rightarrow> nat) \<Rightarrow> jsstring \<Rightarrow> jsstring option" where
  "pickFragment rnd fullText =
     (let text = normalizeText fullText in
      if length text < 800 then None
      else let paras = paragraphs text in
        if length paras < 5 then None
        else attempts rnd paras 0)"

section \<open>The run orchestrator\<close>

text \<open>
  \<open>runOnce\<close> talks to the file system, the PDF parser, the model API and the notifier.
  Each of these calls either returns or throws; what it does is not decided by the
  program, so it is a field of the \<open>world\<close> the run executes in, and the run is a function
  of the world and of the \<open>state\<close> it leaves behind (notifications shown, log entries
  appended, requests sent to the model). A step yields \<open>Inl\<close> of the failure thrown or
  \<open>Inr\<close> of its value, together with the state reached.
\<close>

datatype failure = Failure jsstring

datatype jsval =
    Undefined
  | Null
  | Bool bool
  | Num rat
  | Str jsstring
  | Arr "jsval list"
  | Obj "(jsstring \<times> jsval) list"

fun truthy :: "jsval \<Rightarrow> bool" where
  \<comment> \<open>ToBoolean\<close>
  "truthy Undefined = False"
| "truthy Null = False"
| "truthy (Bool b) = b"
| "truthy (Num n) = (n \<noteq> 0)"
| "truthy (Str s) = (s \<noteq> [])"
| "truthy (Arr _) = True"
| "truthy (Obj _) = True"

fun getProp :: "jsval \<Rightarrow> jsstring \<Rightarrow> jsval" where
  \<comment> \<open>\<open>v?.key\<close> for a key that is an own property of objects only (\<open>cita\<close>, \<open>reflexion\<close>):
      \<open>undefined\<close> on \<open>null\<close> and \<open>undefined\<close> by the optional chaining, \<open>undefined\<close> on
      primitives and arrays, the member or \<open>undefined\<close> on an object (\<open>Obj\<close> lists the own
      properties, each key once)\<close>
  "getProp (Obj kvs) key = (case map_of kvs key of Some v \<Rightarrow> v | None \<Rightarrow> Undefined)"
| "getProp _ key = Undefined"

record dirent =
  entryName :: jsstring
  entryIsFile :: bool

type_synonym path = "jsstring \<times> jsstring"
  \<comment> \<open>\<open>path.join(dir, name)\<close> kept as the pair; \<open>path.basename\<close> is its second part\<close>

datatype notification =
    NoPdfs jsstring
  \<comment> \<open>the notice that \<open>BOOKS_DIR\<close> holds no PDF\<close>
  | NoFragment jsstring
  \<comment> \<open>the notice that no decent fragment came out of \<open>bookName\<close>\<close>
  | Quote jsval jsval jsstring jsstring
  \<comment> \<open>the success notification: \<open>cita\<close>, \<open>reflexion\<close>, \<open>bookName\<close>, \<open>filePath\<close>\<close>
  | Exhausted jsstring
  \<comment> \<open>the notice after the loop ("front matter" only today), with \<open>bookName\<close>\<close>
  | ErrorNote failure
  \<comment> \<open>the notification of the \<open>catch\<close> block, titled as an error, with the failure caught\<close>

record world =
  BOOKS_DIR :: jsstring
  readdirSync :: "failure + dirent list"
  bookDraw :: nat
  pdfText :: "path \<Rightarrow> failure + jsstring option"
  fragDraws :: "nat \<Rightarrow> nat"
  chat :: "nat \<Rightarrow> jsstring \<Rightarrow> jsstring \<Rightarrow> failure + jsstring option"
  jsonParse :: "jsstring \<Rightarrow> jsval option"
  appendFileSync :: "jsval \<Rightarrow> jsval \<Rightarrow> jsstring \<Rightarrow> failure + jsstring"
  notifyThrows :: "notification \<Rightarrow> failure option"

text \<open>
  \<^item> \<open>readdirSync\<close>: what \<open>fs.readdirSync(BOOKS_DIR, { withFileTypes: true })\<close> does;
  \<^item> \<open>bookDraw\<close>, \<open>fragDraws\<close>: the draws of \<open>Math.random()\<close> in \<open>randomPick\<close> and in the
    attempts of \<open>pickFragment\<close>;
  \<^item> \<open>pdfText\<close>: \<open>fs.readFileSync\<close> and \<open>pdfParse\<close> on a file, giving \<open>parsed.text\<close>
    (\<open>None\<close> when it is missing);
  \<^item> \<open>chat\<close>: the \<open>i\<close>-th request of the run to the model, for a book name and a
    fragment, giving \<open>res.choices?.[0]?.message?.content\<close> (\<open>None\<close> when it is missing);
  \<^item> \<open>jsonParse\<close>: \<open>JSON.parse\<close>, \<open>None\<close> when it throws;
  \<^item> \<open>appendFileSync\<close>: \<open>ensureDir\<close>, the clock and \<open>fs.appendFileSync\<close> inside
    \<open>saveQuoteToDailyMd\<close>, giving the path of the day's file;
  \<^item> \<open>notifyThrows\<close>: whether \<open>notifier.notify\<close> throws on a notification.
\<close>

record state =
  shown :: "notification list"
  logged :: "(jsstring \<times> jsval \<times> jsval \<times> jsstring) list"
  queries :: "(jsstring \<times> jsstring) list"

type_synonym 'a step = "(failure + 'a) \<times> state"

definition notify :: "world \<Rightarrow> notification \<Rightarrow> state \<Rightarrow> unit step" where
  "notify w n s =
     (case notifyThrows w n of
        Some e \<Rightarrow> (Inl e, s)
      | None \<Rightarrow> (Inr (), s\<lparr>shown := shown s @ [n]\<rparr>))"

definition listPdfs :: "world \<Rightarrow> jsstring \<Rightarrow> failure + path list" where
  "listPdfs w dir =
     (case readdirSync w of
        Inl e \<Rightarrow> Inl e
      | Inr items \<Rightarrow>
          Inr (map (\<lambda>d. (dir, entryName d))
                 (filter (\<lambda>d. entryIsFile d \<and> suffix (units ''.pdf'') (toLowerCase (entryName d)))
                    items)))"

definition randomPick :: "nat \<Rightarrow> 'a list \<Rightarrow> 'a option" where
  \<comment> \<open>\<open>arr[Math.floor(Math.random() * arr.length)]\<close>; \<open>None\<close> is \<open>undefined\<close>, on an empty array\<close>
  "randomPick draw arr = elemAt arr (randomIndex draw (length arr))"

definition extractPdfText :: "world \<Rightarrow> path \<Rightarrow> failure + jsstring" where
  \<comment> \<open>\<open>parsed.text || ""\<close>\<close>
  "extractPdfText w filePath =
     (case pdfText w filePath of
        Inl e \<Rightarrow> Inl e
      | Inr None \<Rightarrow> Inr []
      | Inr (Some t) \<Rightarrow> Inr t)"

definition answerText :: "jsstring option \<Rightarrow> jsstring" where
  \<comment> \<open>\<open>res.choices?.[0]?.message?.content?.trim() || ""\<close>\<close>
  "answerText content = (case content of None \<Rightarrow> [] | Some c \<Rightarrow> trim c)"

definition sent :: "jsstring \<Rightarrow> jsstring \<Rightarrow> state \<Rightarrow> state" where
  \<comment> \<open>one more request to the model on record\<close>
  "sent bookName fragment s = s\<lparr>queries := queries s @ [(bookName, fragment)]\<rparr>"

definition askGroqForQuote :: "world \<Rightarrow> nat \<Rightarrow> jsstring \<Rightarrow> jsstring \<Rightarrow> state \<Rightarrow> jsstring step" where
  "askGroqForQuote w i bookName fragment s =
     (case chat w i bookName fragment of
        Inl e \<Rightarrow> (Inl e, sent bookName fragment s)
      | Inr content \<Rightarrow> (Inr (answerText content), sent bookName fragment s))"

definition safeJsonParse :: "world \<Rightarrow> jsstring \<Rightarrow> jsval" where
  "safeJsonParse w str = (case jsonParse w str of Some v \<Rightarrow> v | None \<Rightarrow> Null)"

abbreviation citaOf :: "world \<Rightarrow> jsstring \<Rightarrow> jsval" where
  \<comment> \<open>\<open>json?.cita\<close> for \<open>json = safeJsonParse(out)\<close>\<close>
  "citaOf w out \<equiv> getProp (safeJsonParse w out) (units ''cita'')"

abbreviation reflexionOf :: "world \<Rightarrow> jsstring \<Rightarrow> jsval" where
  "reflexionOf w out \<equiv> getProp (safeJsonParse w out) (units ''reflexion'')"

abbreviation softAnswer :: "world \<Rightarrow> jsstring option \<Rightarrow> bool" where
  \<comment> \<open>the two \<open>continue\<close> conditions of the loop, on the content of an answer\<close>
  "softAnswer w content \<equiv>
     answerText content = units ''SKIP'' \<or> \<not> truthy (citaOf w (answerText content))"

definition saveQuoteToDailyMd :: "world \<Rightarrow> jsval \<Rightarrow> jsval \<Rightarrow> jsstring \<Rightarrow> state \<Rightarrow> jsstring step" where
  "saveQuoteToDailyMd w cita reflexion bookName s =
     (case appendFileSync w cita reflexion bookName of
        Inl e \<Rightarrow> (Inl e, s)
      | Inr filePath \<Rightarrow>
          (Inr filePath, s\<lparr>logged := logged s @ [(filePath, cita, reflexion, bookName)]\<rparr>))"

function queryLoop :: "world \<Rightarrow> jsstring \<Rightarrow> jsstring \<Rightarrow> nat \<Rightarrow> state \<Rightarrow> unit step" where
  \<comment> \<open>the loop \<open>for (let i = 0; i < 6; i++)\<close> of \<open>runOnce\<close> from \<open>i\<close> on, and the
      notification that follows it when no iteration returns\<close>
  "queryLoop w bookName fragment i s =
     (if i < 6 then
        (case askGroqForQuote w i bookName fragment s of
           (Inl e, s1) \<Rightarrow> (Inl e, s1)
         | (Inr out, s1) \<Rightarrow>
             if out = units ''SKIP'' then queryLoop w bookName fragment (i + 1) s1
             else let json = safeJsonParse w out in
               if \<not> truthy (getProp json (units ''cita'')) then queryLoop w bookName fragment (i + 1) s1
               else
                 (case saveQuoteToDailyMd w (getProp json (units ''cita''))
                         (getProp json (units ''reflexion'')) bookName s1 of
                    (Inl e, s2) \<Rightarrow> (Inl e, s2)
                  | (Inr filePath, s2) \<Rightarrow>
                      notify w (Quote (getProp json (units ''cita''))
                                  (getProp json (units ''reflexion'')) bookName filePath) s2))
      else notify w (Exhausted bookName) s)"
  by pat_completeness auto
termination
  by (relation "measure (\<lambda>(w, bookName, fragment, i, s). 6 - i)") auto

definition runBody :: "world \<Rightarrow> state \<Rightarrow> unit step" where
  \<comment> \<open>the \<open>try\<close> block of \<open>runOnce\<close>. \<open>randomPick\<close> gives \<open>undefined\<close> on an empty array
      only, where \<open>path.basename\<close> would throw a \<open>TypeError\<close>; \<open>pdfs\<close> is not empty there.\<close>
  "runBody w s =
     (case listPdfs w (BOOKS_DIR w) of
        Inl e \<Rightarrow> (Inl e, s)
      | Inr pdfs \<Rightarrow>
          if pdfs = [] then notify w (NoPdfs (BOOKS_DIR w)) s
          else
            (case randomPick (bookDraw w) pdfs of
               None \<Rightarrow> (Inl (Failure (units ''TypeError'')), s)
             | Some chosen \<Rightarrow>
                 (let bookName = snd chosen in
                  case extractPdfText w chosen of
                    Inl e \<Rightarrow> (Inl e, s)
                  | Inr fullText \<Rightarrow>
                      (case pickFragment (fragDraws w) fullText of
                         None \<Rightarrow> notify w (NoFragment bookName) s
                       | Some fragment \<Rightarrow>
                           if fragment = [] then notify w (NoFragment bookName) s
                           else queryLoop w bookName fragment 0 s))))"

definition runOnce :: "world \<Rightarrow> state \<Rightarrow> unit step" where
  \<comment> \<open>\<open>try { ... } catch (err) { notify(...) }\<close>; a result \<open>Inl\<close> is a failure that
      leaves \<open>runOnce\<close> (its promise is rejected)\<close>
  "runOnce w s =
     (case runBody w s of
        (Inl err, s') \<Rightarrow> notify w (ErrorNote err) s'
      | (Inr u, s') \<Rightarrow> (Inr u, s'))"

section \<open>Example inputs\<close>

definition prose :: "nat \<Rightarrow> jsstring" where
  \<comment> \<open>a paragraph of \<open>n\<close> letters \<open>a\<close>\<close>
  "prose n = replicate n 97"

definition proseDoc :: jsstring where
  \<comment> \<open>five paragraphs of 250 letters: 1258 units\<close>
  "proseDoc = join [LF, LF] [prose 250, prose 250, prose 250, prose 250, prose 250]"

definition longDoc :: jsstring where
  \<comment> \<open>five paragraphs of 700 letters: 3508 units\<close>
  "longDoc = join [LF, LF] [prose 700, prose 700, prose 700, prose 700, prose 700]"

definition shortDoc :: jsstring where
  \<comment> \<open>six paragraphs, 799 units\<close>
  "shortDoc = join [LF, LF] [prose 131, prose 131, prose 131, prose 131, prose 131, prose 134]"

definition fourDoc :: jsstring where
  \<comment> \<open>four paragraphs, 900 units\<close>
  "fourDoc = join [LF, LF] [prose 224, prose 224, prose 223, prose 223]"

definition padded :: jsstring where
  \<comment> \<open>a line of 40 units: the letter \<open>a\<close> and 39 spaces\<close>
  "padded = 97 # replicate 39 SP"

definition paddedTen :: jsstring where
  \<comment> \<open>ten such lines: 409 units\<close>
  "paddedTen = join [LF] (replicate 10 padded)"

definition paddedSeven :: jsstring where
  \<comment> \<open>seven such lines and three empty lines: 289 units\<close>
  "paddedSeven = join [LF] (replicate 7 padded @ replicate 3 [])"

definition legal :: jsstring where
  \<comment> \<open>a paragraph of 259 units that starts with the word copyright\<close>
  "legal = units ''copyright'' @ prose 250"

definition legalDoc :: jsstring where
  \<comment> \<open>five such paragraphs: 1303 units\<close>
  "legalDoc = join [LF, LF] [legal, legal, legal, legal, legal]"

definition book :: jsstring where
  "book = units ''Book.PDF''"

definition fragment3 :: jsstring where
  \<comment> \<open>the first three paragraphs of \<open>proseDoc\<close>\<close>
  "fragment3 = join [LF, LF] [prose 250, prose 250, prose 250]"

definition logPath :: jsstring where
  "logPath = units ''logs/2024-05-01.md''"

definition quoteJson :: jsstring where
  \<open>quoteJson = units ''{"cita":"X","reflexion":"Y"}''\<close>

definition emptyJson :: jsstring where
  \<open>emptyJson = units ''{"cita":"","reflexion":"Y"}''\<close>

definition noCitaJson :: jsstring where
  \<open>noCitaJson = units ''{"reflexion":"Y"}''\<close>

definition parseTable :: "jsstring \<Rightarrow> jsval option" where
  \<comment> \<open>\<open>JSON.parse\<close> on the answers of the example worlds: three objects; the other answers
      (\<open>SKIP\<close>, \<open>sorry\<close>) are no JSON\<close>
  "parseTable str =
     (if str = quoteJson
        then Some (Obj [(units ''cita'', Str (units ''X'')), (units ''reflexion'', Str (units ''Y''))])
      else if str = emptyJson
        then Some (Obj [(units ''cita'', Str []), (units ''reflexion'', Str (units ''Y''))])
      else if str = noCitaJson
        then Some (Obj [(units ''reflexion'', Str (units ''Y''))])
      else None)"

definition goodWorld :: world where
  \<comment> \<open>one book; the model answers \<open>SKIP\<close>, then text that is no JSON, then an object with
      an empty \<open>cita\<close>, then a quote; nothing throws\<close>
  "goodWorld =
     \<lparr>BOOKS_DIR = units ''books'',
      readdirSync = Inr [\<lparr>entryName = units ''Book.PDF'', entryIsFile = True\<rparr>,
                         \<lparr>entryName = units ''notes.txt'', entryIsFile = True\<rparr>],
      bookDraw = 0,
      pdfText = (\<lambda>_. Inr (Some proseDoc)),
      fragDraws = (\<lambda>_. 0),
      chat = (\<lambda>i _ _. Inr (Some (if i = 0 then units '' SKIP ''
                                   else if i = 1 then units ''sorry''
                                   else if i = 2 then emptyJson
                                   else quoteJson))),
      jsonParse = parseTable,
      appendFileSync = (\<lambda>_ _ _. Inr logPath),
      notifyThrows = (\<lambda>_. None)\<rparr>"

definition skipWorld :: world where
  \<comment> \<open>the model answers \<open>SKIP\<close> every time\<close>
  "skipWorld = goodWorld\<lparr>chat := (\<lambda>_ _ _. Inr (Some (units ''SKIP'')))\<rparr>"

definition noCitaWorld :: world where
  \<comment> \<open>the model answers with an object that has no \<open>cita\<close>\<close>
  "noCitaWorld = goodWorld\<lparr>chat := (\<lambda>_ _ _. Inr (Some noCitaJson))\<rparr>"

definition noDirWorld :: world where
  \<comment> \<open>the directory cannot be read\<close>
  "noDirWorld = goodWorld\<lparr>readdirSync := Inl (Failure (units ''ENOENT''))\<rparr>"

definition noNotifierWorld :: world where
  \<comment> \<open>every call of the notifier throws\<close>
  "noNotifierWorld = goodWorld\<lparr>notifyThrows := (\<lambda>_. Some (Failure (units ''no notifier'')))\<rparr>"

definition badPdfWorld :: world where
  \<comment> \<open>the PDF cannot be parsed\<close>
  "badPdfWorld = goodWorld\<lparr>pdfText := (\<lambda>_. Inl (Failure (units ''bad XRef entry'')))\<rparr>"

definition offlineWorld :: world where
  \<comment> \<open>the request to the model fails\<close>
  "offlineWorld = goodWorld\<lparr>chat := (\<lambda>_ _ _. Inl (Failure (units ''ECONNREFUSED'')))\<rparr>"

definition readOnlyWorld :: world where
  \<comment> \<open>the log file cannot be written\<close>
  "readOnlyWorld = goodWorld\<lparr>appendFileSync := (\<lambda>_ _ _. Inl (Failure (units ''EACCES'')))\<rparr>"

definition noQuoteNoteWorld :: world where
  \<comment> \<open>the notifier throws on the success notification only\<close>
  "noQuoteNoteWorld =
     goodWorld\<lparr>notifyThrows :=
       (\<lambda>n. case n of Quote _ _ _ _ \<Rightarrow> Some (Failure (units ''no notifier'')) | _ \<Rightarrow> None)\<rparr>"

definition emptyState :: state where
  "emptyState = \<lparr>shown = [], logged = [], queries = []\<rparr>"

section \<open>Facts about the string operations\<close>

lemma trim_unfold: "trim s = rev (dropWhile isWhiteSpace (rev (dropWhile isWhiteSpace s)))"
  by (simp add: trim_def trimStart_def trimEnd_def)

lemma strIncludes_sublist: "strIncludes s h \<longleftrightarrow> sublist h s"
  by (induction s) (auto simp: sublist_Cons_right)

lemma CR_notin_replaceCR: "CR \<notin> set (replaceCR t)"
  by (auto simp: replaceCR_def)

lemma replaceCR_id: "CR \<notin> set s \<Longrightarrow> replaceCR s = s"
  by (induction s) (auto simp: replaceCR_def)

lemma replaceBlanks_Nil_iff: "replaceBlanks s = [] \<longleftrightarrow> s = []"
  by (cases s) auto

lemma hd_replaceBlanks: "s \<noteq> [] \<Longrightarrow> hd (replaceBlanks s) = (if isBlank (hd s) then SP else hd s)"
  by (cases s) auto

lemma set_replaceBlanks: "set (replaceBlanks s) \<subseteq> insert SP (set s)"
proof (induction s rule: replaceBlanks.induct)
  case 1
  show ?case by simp
next
  case (2 c cs)
  have "set (dropWhile isBlank cs) \<subseteq> set cs"
    by (meson set_dropWhileD subsetI)
  with 2 show ?case by auto
qed

lemma TAB_notin_replaceBlanks: "TAB \<notin> set (replaceBlanks s)"
  by (induction s rule: replaceBlanks.induct) (auto simp: isBlank_def)

lemma no_SPSP_replaceBlanks: "\<not> sublist [SP, SP] (replaceBlanks s)"
proof (induction s rule: replaceBlanks.induct)
  case 1
  show ?case by simp
next
  case (2 c cs)
  show ?case
  proof (cases "isBlank c")
    case True
    let ?r = "dropWhile isBlank cs"
    have ih: "\<not> sublist [SP, SP] (replaceBlanks ?r)" using 2 True by simp
    have "\<not> prefix [SP] (replaceBlanks ?r)"
    proof (cases "?r = []")
      case True
      then have e: "replaceBlanks ?r = []" by (simp only: replaceBlanks.simps)
      show ?thesis unfolding e by simp
    next
      case False
      then have "\<not> isBlank (hd ?r)" by (rule hd_dropWhile)
      with False have "hd (replaceBlanks ?r) \<noteq> SP"
        by (auto simp: hd_replaceBlanks isBlank_def)
      moreover have "replaceBlanks ?r \<noteq> []" using False by (simp add: replaceBlanks_Nil_iff)
      ultimately show ?thesis by (cases "replaceBlanks ?r") auto
    qed
    with ih True show ?thesis by (simp add: sublist_Cons_right)
  next
    case False
    then have "c \<noteq> SP" by (simp add: isBlank_def)
    with 2 False show ?thesis by (simp add: sublist_Cons_right)
  qed
qed

lemma replaceBlanks_id: "TAB \<notin> set s \<Longrightarrow> \<not> sublist [SP, SP] s \<Longrightarrow> replaceBlanks s = s"
proof (induction s)
  case Nil
  show ?case by simp
next
  case (Cons c cs)
  have tl: "replaceBlanks cs = cs" using Cons by (simp add: sublist_Cons_right)
  show ?case
  proof (cases "isBlank c")
    case True
    with Cons.prems have c: "c = SP" by (auto simp: isBlank_def)
    have "dropWhile isBlank cs = cs"
    proof (cases cs)
      case Nil then show ?thesis by simp
    next
      case (Cons d ds)
      with Cons.prems c have "d \<noteq> SP" "d \<noteq> TAB" by (auto simp: sublist_Cons_right)
      with Cons show ?thesis by (simp add: isBlank_def)
    qed
    with True c tl show ?thesis by simp
  next
    case False
    with tl show ?thesis by simp
  qed
qed


lemma replaceNewlines_Nil_iff: "replaceNewlines s = [] \<longleftrightarrow> s = []"
  by (cases s) auto

lemma hd_replaceNewlines: "hd (replaceNewlines s) = hd s"
  by (cases s) auto

lemma set_replaceNewlines: "set (replaceNewlines s) \<subseteq> set s"
proof (induction s rule: replaceNewlines.induct)
  case 1
  show ?case by simp
next
  case (2 c cs)
  have "set (dropWhile (\<lambda>x. x = LF) cs) \<subseteq> set cs"
    by (meson set_dropWhileD subsetI)
  with 2 show ?case by auto
qed

lemma takeWhile_ge2: "2 \<le> length (takeWhile P cs) \<longleftrightarrow> (\<exists>a b r. cs = a # b # r \<and> P a \<and> P b)"
proof (cases cs)
  case Nil then show ?thesis by simp
next
  case (Cons a ds)
  then show ?thesis by (cases ds) auto
qed

lemma replaceNewlines_id: "\<not> sublist [LF, LF, LF] s \<Longrightarrow> replaceNewlines s = s"
proof (induction s)
  case Nil
  show ?case by simp
next
  case (Cons c cs)
  have tl: "replaceNewlines cs = cs" using Cons by (simp add: sublist_Cons_right)
  have "\<not> (c = LF \<and> 2 \<le> length (takeWhile (\<lambda>x. x = LF) cs))"
    using Cons.prems by (auto simp: takeWhile_ge2 sublist_Cons_right)
  with tl show ?case by auto
qed


lemma replaceNewlines_LFLF:
  assumes p: "prefix [LF, LF] (replaceNewlines s)"
  shows "prefix [LF, LF] s"
proof (cases s)
  case Nil
  with p show ?thesis by simp
next
  case (Cons c cs)
  show ?thesis
  proof (cases "c = LF \<and> 2 \<le> length (takeWhile (\<lambda>x. x = LF) cs)")
    case True
    then show ?thesis using Cons by (auto simp: takeWhile_ge2)
  next
    case False
    with p Cons have c: "c = LF" and q: "prefix [LF] (replaceNewlines cs)" by auto
    from q have "replaceNewlines cs \<noteq> []" by auto
    then have "cs \<noteq> []" by (simp add: replaceNewlines_Nil_iff)
    moreover from q have "hd (replaceNewlines cs) = LF" by (cases "replaceNewlines cs") auto
    then have "hd cs = LF" by (simp add: hd_replaceNewlines)
    ultimately show ?thesis using Cons c by (cases cs) auto
  qed
qed

lemma no_LF3_replaceNewlines: "\<not> sublist [LF, LF, LF] (replaceNewlines s)"
proof (induction s rule: replaceNewlines.induct)
  case 1
  show ?case by simp
next
  case (2 c cs)
  show ?case
  proof (cases "c = LF \<and> 2 \<le> length (takeWhile (\<lambda>x. x = LF) cs)")
    case True
    let ?r = "dropWhile (\<lambda>x. x = LF) cs"
    have ih: "\<not> sublist [LF, LF, LF] (replaceNewlines ?r)" using 2 True by simp
    have "replaceNewlines ?r = [] \<or> hd (replaceNewlines ?r) \<noteq> LF"
    proof (cases "?r = []")
      case True
      then have "replaceNewlines ?r = []" by (simp only: replaceNewlines.simps)
      then show ?thesis ..
    next
      case False
      then have "hd ?r \<noteq> LF" using hd_dropWhile [of "\<lambda>x. x = LF" cs] by simp
      then show ?thesis by (simp add: hd_replaceNewlines)
    qed
    then have "\<not> sublist [LF, LF, LF] (LF # LF # replaceNewlines ?r)"
      using ih by (cases "replaceNewlines ?r") (auto simp: sublist_Cons_right)
    with True show ?thesis by simp
  next
    case False
    then have ih: "\<not> sublist [LF, LF, LF] (replaceNewlines cs)" using 2 by simp
    have "\<not> prefix [LF, LF, LF] (c # replaceNewlines cs)"
    proof
      assume "prefix [LF, LF, LF] (c # replaceNewlines cs)"
      then have c: "c = LF" and "prefix [LF, LF] (replaceNewlines cs)" by auto
      then have "prefix [LF, LF] cs" using replaceNewlines_LFLF by blast
      then have "2 \<le> length (takeWhile (\<lambda>x. x = LF) cs)"
        by (auto simp: takeWhile_ge2 prefix_def)
      with c False show False by simp
    qed
    moreover from False have "replaceNewlines (c # cs) = c # replaceNewlines cs" by auto
    ultimately show ?thesis using ih by (simp only: sublist_Cons_right) simp
  qed
qed

lemma replaceNewlines_pair:
  assumes "a \<noteq> LF"
  shows "sublist [a, b] (replaceNewlines s) \<Longrightarrow> sublist [a, b] s"
proof (induction s rule: replaceNewlines.induct)
  case 1
  then show ?case by simp
next
  case (2 c cs)
  show ?case
  proof (cases "c = LF \<and> 2 \<le> length (takeWhile (\<lambda>x. x = LF) cs)")
    case True
    let ?r = "dropWhile (\<lambda>x. x = LF) cs"
    from "2.prems" True assms have "sublist [a, b] (replaceNewlines ?r)"
      by (simp add: sublist_Cons_right)
    then have "sublist [a, b] ?r" using 2 True by simp
    then have "sublist [a, b] cs"
      using sublist_dropWhile sublist_order.order_trans by blast
    then show ?thesis by (simp add: sublist_Cons_right)
  next
    case False
    with "2.prems" have "prefix [a, b] (c # replaceNewlines cs) \<or> sublist [a, b] (replaceNewlines cs)"
      by (simp add: sublist_Cons_right)
    then show ?thesis
    proof
      assume p: "prefix [a, b] (c # replaceNewlines cs)"
      then have c: "c = a" and q: "prefix [b] (replaceNewlines cs)" by auto
      from q have "replaceNewlines cs \<noteq> []" by auto
      then have "cs \<noteq> []" by (simp add: replaceNewlines_Nil_iff)
      moreover from q have "hd (replaceNewlines cs) = b" by (cases "replaceNewlines cs") auto
      then have "hd cs = b" by (simp add: hd_replaceNewlines)
      ultimately have "prefix [a, b] (c # cs)" using c by (cases cs) auto
      then show ?thesis by (simp add: sublist_Cons_right)
    next
      assume "sublist [a, b] (replaceNewlines cs)"
      then have "sublist [a, b] cs" using 2 False by simp
      then show ?thesis by (simp add: sublist_Cons_right)
    qed
  qed
qed

lemma sublist_trim: "sublist (trim s) s"
proof -
  have "prefix (trim s) (dropWhile isWhiteSpace s)"
    unfolding trim_unfold by (metis suffix_dropWhile suffix_to_prefix rev_rev_ident)
  then have "sublist (trim s) (dropWhile isWhiteSpace s)" by (rule prefix_imp_sublist)
  then show ?thesis using sublist_dropWhile sublist_order.order_trans by blast
qed

lemma trim_Nil [simp]: "trim [] = []"
  by (simp add: trim_unfold)

lemma trim_id: "s \<noteq> [] \<Longrightarrow> \<not> isWhiteSpace (hd s) \<Longrightarrow> \<not> isWhiteSpace (last s) \<Longrightarrow> trim s = s"
proof -
  assume ne: "s \<noteq> []" and h: "\<not> isWhiteSpace (hd s)" and l: "\<not> isWhiteSpace (last s)"
  from ne h have a: "dropWhile isWhiteSpace s = s" by (cases s) auto
  from ne l have "dropWhile isWhiteSpace (rev s) = rev s" by (cases "rev s") (auto simp: last_rev [symmetric] hd_rev)
  with a show ?thesis by (simp add: trim_unfold)
qed

lemma trim_ends:
  assumes "trim s \<noteq> []"
  shows "\<not> isWhiteSpace (hd (trim s))" and "\<not> isWhiteSpace (last (trim s))"
proof -
  let ?y = "dropWhile isWhiteSpace s"
  let ?z = "dropWhile isWhiteSpace (rev ?y)"
  from assms have z: "?z \<noteq> []" unfolding trim_unfold rev_is_Nil_conv .
  then have "\<not> isWhiteSpace (hd ?z)" by (rule hd_dropWhile)
  then show "\<not> isWhiteSpace (last (trim s))" using z by (simp add: trim_unfold last_rev)
  have y: "?y \<noteq> []"
  proof
    assume "?y = []"
    then have "?z = []" by (simp only: rev.simps dropWhile.simps)
    with z show False by contradiction
  qed
  then have hy: "\<not> isWhiteSpace (hd ?y)" by (rule hd_dropWhile)
  from y have "rev ?y = rev (tl ?y) @ [hd ?y]" by (cases ?y) auto
  then have "?z = dropWhile isWhiteSpace (rev (tl ?y)) @ [hd ?y]"
    using hy by (simp add: dropWhile_append3)
  then have "hd (trim s) = hd ?y" by (simp add: trim_unfold)
  with hy show "\<not> isWhiteSpace (hd (trim s))" by simp
qed


lemma set_trim: "set (trim s) \<subseteq> set s"
  by (rule set_mono_sublist [OF sublist_trim])

lemma normalizeText_props:
  "CR \<notin> set (normalizeText t)"
  "TAB \<notin> set (normalizeText t)"
  "\<not> sublist [SP, SP] (normalizeText t)"
  "\<not> sublist [LF, LF, LF] (normalizeText t)"
  "normalizeText t \<noteq> [] \<Longrightarrow> \<not> isWhiteSpace (hd (normalizeText t))"
  "normalizeText t \<noteq> [] \<Longrightarrow> \<not> isWhiteSpace (last (normalizeText t))"
proof -
  let ?a = "replaceCR t"
  let ?b = "replaceBlanks ?a"
  let ?c = "replaceNewlines ?b"
  have sub: "sublist (normalizeText t) ?c"
    unfolding normalizeText_def by (rule sublist_trim)
  have "CR \<notin> set ?b"
    using set_replaceBlanks [of ?a] CR_notin_replaceCR [of t] by auto
  then have "CR \<notin> set ?c" using set_replaceNewlines [of ?b] by auto
  then show "CR \<notin> set (normalizeText t)" using set_mono_sublist [OF sub] by auto
  have "TAB \<notin> set ?c" using set_replaceNewlines [of ?b] TAB_notin_replaceBlanks [of ?a] by auto
  then show "TAB \<notin> set (normalizeText t)" using set_mono_sublist [OF sub] by auto
  have "\<not> sublist [SP, SP] ?c"
    using replaceNewlines_pair [of SP SP ?b] no_SPSP_replaceBlanks [of ?a] by auto
  then show "\<not> sublist [SP, SP] (normalizeText t)"
    using sub sublist_order.order_trans by blast
  show "\<not> sublist [LF, LF, LF] (normalizeText t)"
    using sub no_LF3_replaceNewlines [of ?b] sublist_order.order_trans by blast
  show "normalizeText t \<noteq> [] \<Longrightarrow> \<not> isWhiteSpace (hd (normalizeText t))"
    unfolding normalizeText_def by (rule trim_ends)
  show "normalizeText t \<noteq> [] \<Longrightarrow> \<not> isWhiteSpace (last (normalizeText t))"
    unfolding normalizeText_def by (rule trim_ends)
qed

lemma normalizeText_fixed:
  assumes "CR \<notin> set s" "TAB \<notin> set s" "\<not> sublist [SP, SP] s" "\<not> sublist [LF, LF, LF] s"
    and "s \<noteq> [] \<Longrightarrow> \<not> isWhiteSpace (hd s) \<and> \<not> isWhiteSpace (last s)"
  shows "normalizeText s = s"
proof -
  have "replaceNewlines (replaceBlanks (replaceCR s)) = s"
    using assms(1-4) by (simp add: replaceCR_id replaceBlanks_id replaceNewlines_id)
  moreover have "trim s = s"
    using assms(5) by (cases "s = []") (simp_all add: trim_id)
  ultimately show ?thesis by (simp add: normalizeText_def)
qed

lemma set_join: "set (join sep ps) \<subseteq> set sep \<union> \<Union> (set ` set ps)"
  by (induction sep ps rule: join.induct) auto

lemma join_Nil_iff: "join sep ps = [] \<longleftrightarrow> ps = [] \<or> (ps = [[]]) \<or> (sep = [] \<and> (\<forall>p\<in>set ps. p = []))"
  by (induction sep ps rule: join.induct) auto

lemma hd_join: "p \<noteq> [] \<Longrightarrow> hd (join sep (p # ps)) = hd p"
  by (cases ps) auto

lemma join_nonempty: "ps \<noteq> [] \<Longrightarrow> last ps \<noteq> [] \<Longrightarrow> join sep ps \<noteq> []"
  by (induction sep ps rule: join.induct) auto

lemma last_join: "ps \<noteq> [] \<Longrightarrow> last ps \<noteq> [] \<Longrightarrow> last (join sep ps) = last (last ps)"
proof (induction sep ps rule: join.induct)
  case (3 sep x y ys)
  then have "join sep (y # ys) \<noteq> []" using join_nonempty [of "y # ys" sep] by simp
  with 3 show ?case by simp
qed simp_all

lemma replaceNewlines_append_noLF:
  "LF \<notin> set x \<Longrightarrow> replaceNewlines (x @ r) = x @ replaceNewlines r"
  by (induction x) auto

lemma replaceNewlines_join:
  "\<forall>p\<in>set ps. p \<noteq> [] \<and> LF \<notin> set p \<Longrightarrow>
   replaceNewlines (join [LF, LF] ps) = join [LF, LF] ps"
proof (induction "[LF, LF] :: jsstring" ps rule: join.induct)
  case 1
  show ?case by simp
next
  case (2 x)
  then show ?case using replaceNewlines_append_noLF [of x "[]"] by simp
next
  case (3 x y ys)
  let ?R = "join [LF, LF] (y # ys)"
  from 3 have R: "replaceNewlines ?R = ?R" by simp
  from 3 have "y \<noteq> []" "LF \<notin> set y" by auto
  then have "y \<noteq> []" "hd y \<noteq> LF" by (metis hd_in_set)+
  then have "?R \<noteq> []" "hd ?R \<noteq> LF" by (auto simp: join_Nil_iff hd_join)
  then obtain c cs where e: "?R = c # cs" and c: "c \<noteq> LF" by (cases ?R) auto
  have "replaceNewlines (LF # LF # ?R) = LF # LF # replaceNewlines ?R"
    unfolding e using c by simp
  with R 3 show ?case by (simp add: replaceNewlines_append_noLF)
qed

lemma split_piece:
  "sep \<noteq> [] \<Longrightarrow> hd sep \<notin> set p \<Longrightarrow> split sep acc (p @ r) = split sep (rev p @ acc) r"
proof (induction p arbitrary: acc)
  case Nil
  show ?case by simp
next
  case (Cons c p)
  then have "\<not> prefix sep (c # p @ r)" by (cases sep) auto
  with Cons show ?case by simp
qed

lemma split_sep:
  "sep \<noteq> [] \<Longrightarrow> split sep acc (sep @ r) = rev acc # split sep [] r"
  by (cases sep) auto

lemma split_join:
  "sep \<noteq> [] \<Longrightarrow> ps \<noteq> [] \<Longrightarrow> \<forall>p\<in>set ps. hd sep \<notin> set p \<Longrightarrow>
   split sep [] (join sep ps) = ps"
proof (induction sep ps rule: join.induct)
  case (1 sep)
  then show ?case by simp
next
  case (2 sep x)
  then show ?case using split_piece [of sep x "[]" "[]"] by simp
next
  case (3 sep x y ys)
  then have "split sep [] (x @ sep @ join sep (y # ys)) = x # split sep [] (join sep (y # ys))"
    by (simp add: split_piece split_sep)
  with 3 show ?case by simp
qed

lemma notWhite_trim: "p \<noteq> [] \<Longrightarrow> \<forall>c\<in>set p. \<not> isWhiteSpace c \<Longrightarrow> trim p = p"
  by (rule trim_id) simp_all

lemma filterBoolean_trim:
  "\<forall>p\<in>set ps. p \<noteq> [] \<and> (\<forall>c\<in>set p. \<not> isWhiteSpace c) \<Longrightarrow>
   filterBoolean (map (Some \<circ> trim) ps) = ps"
  by (induction ps) (simp_all add: notWhite_trim)

lemma white_simps [simp]: "isWhiteSpace LF" "isWhiteSpace SP" "isWhiteSpace TAB" "isWhiteSpace CR"
  by (simp_all add: isWhiteSpace_def)

lemma paragraphs_join:
  assumes "\<forall>p\<in>set ps. p \<noteq> [] \<and> (\<forall>c\<in>set p. \<not> isWhiteSpace c)"
  shows "paragraphs (join [LF, LF] ps) = ps"
proof (cases "ps = []")
  case True
  then show ?thesis by (simp add: paragraphs_def)
next
  case False
  have "\<forall>p\<in>set ps. LF \<notin> set p" using assms white_simps(1) by blast
  then have "split [LF, LF] [] (join [LF, LF] ps) = ps"
    using False split_join [of "[LF, LF]" ps] by simp
  then show ?thesis using assms by (simp add: paragraphs_def filterBoolean_trim)
qed

lemma normalizeText_join:
  assumes "\<forall>p\<in>set ps. p \<noteq> [] \<and> (\<forall>c\<in>set p. \<not> isWhiteSpace c)"
  shows "normalizeText (join [LF, LF] ps) = join [LF, LF] ps"
proof (cases "ps = []")
  case True
  then show ?thesis by (simp add: normalizeText_def replaceCR_def)
next
  case False
  let ?d = "join [LF, LF] ps"
  have mem: "\<And>c. c \<in> set ?d \<Longrightarrow> c = LF \<or> \<not> isWhiteSpace c"
    using set_join [of "[LF, LF]" ps] assms by auto
  have cr: "CR \<notin> set ?d" and tab: "TAB \<notin> set ?d" and sp: "SP \<notin> set ?d"
    using mem white_simps by fastforce+
  have "\<not> sublist [SP, SP] ?d" using sp set_mono_sublist [of "[SP, SP]" ?d] by auto
  with cr tab have a: "replaceBlanks (replaceCR ?d) = ?d" by (simp add: replaceCR_id replaceBlanks_id)
  have "\<forall>p\<in>set ps. p \<noteq> [] \<and> LF \<notin> set p" using assms white_simps(1) by blast
  then have b: "replaceNewlines ?d = ?d" by (rule replaceNewlines_join)
  obtain p ps' where ps: "ps = p # ps'" using False by (cases ps) auto
  with assms have "p \<noteq> []" "\<not> isWhiteSpace (hd p)" by auto
  then have h: "?d \<noteq> []" "\<not> isWhiteSpace (hd ?d)" unfolding ps by (auto simp: join_Nil_iff hd_join)
  from False assms have "last ps \<noteq> []" "\<not> isWhiteSpace (last (last ps))"
    by (metis last_in_set)+
  then have "\<not> isWhiteSpace (last ?d)" using False by (simp add: last_join)
  with h have "trim ?d = ?d" by (simp add: trim_id)
  with a b show ?thesis by (simp add: normalizeText_def)
qed


declare attempts.simps [simp del]

lemma attempts_Some:
  "attempts rnd paras k = Some f \<Longrightarrow> \<not> looksLikeJunk f \<and> length f \<le> 1600"
proof (induction rnd paras k rule: attempts.induct)
  case (1 rnd paras attempt)
  show ?case
  proof (cases "attempt < 12")
    case False
    with "1.prems" show ?thesis by (simp add: attempts.simps [of rnd paras attempt])
  next
    case True
    let ?c = "clipped paras (randomIndex (rnd attempt) (length paras))"
    show ?thesis
    proof (cases "looksLikeJunk ?c")
      case False
      with True "1.prems" have "f = ?c" by (simp add: attempts.simps [of rnd paras attempt])
      with False show ?thesis by (simp add: clipped_def)
    next
      case junk: True
      with True "1.prems" have "attempts rnd paras (attempt + 1) = Some f"
        by (simp add: attempts.simps [of rnd paras attempt])
      with "1.IH" True junk show ?thesis by simp
    qed
  qed
qed

lemma randomIndex_less: "0 < n \<Longrightarrow> randomIndex d n < n"
  by (simp add: randomIndex_def)

lemma attempts_None:
  "paras \<noteq> [] \<Longrightarrow> \<forall>i<length paras. looksLikeJunk (clipped paras i) \<Longrightarrow>
   attempts rnd paras k = None"
proof (induction rnd paras k rule: attempts.induct)
  case (1 rnd paras attempt)
  show ?case
  proof (cases "attempt < 12")
    case False
    then show ?thesis by (simp add: attempts.simps [of rnd paras attempt])
  next
    case True
    let ?i = "randomIndex (rnd attempt) (length paras)"
    from "1.prems" have junk: "looksLikeJunk (clipped paras ?i)"
      by (simp add: randomIndex_less)
    with "1.IH" True "1.prems" have "attempts rnd paras (attempt + 1) = None" by simp
    with True junk show ?thesis by (simp add: attempts.simps [of rnd paras attempt])
  qed
qed

lemma length_join:
  "length (join sep ps) = sum_list (map length ps) + length sep * (length ps - 1)"
  by (induction sep ps rule: join.induct) auto

lemma toLowerCase_append: "toLowerCase (a @ b) = toLowerCase a @ toLowerCase b"
  by (simp add: toLowerCase_def)

lemma toLowerCase_id: "\<forall>c\<in>set s. lowerUnit c = [c] \<Longrightarrow> toLowerCase s = s"
  by (induction s) (simp_all add: toLowerCase_def)

lemma junkHints_eval:
  "junkHints =
    [[105, 115, 98, 110],
     [99, 111, 112, 121, 114, 105, 103, 104, 116],
     [116, 111, 100, 111, 115, 32, 108, 111, 115, 32, 100, 101, 114, 101, 99, 104, 111, 115, 32,
      114, 101, 115, 101, 114, 118, 97, 100, 111, 115],
     [237, 110, 100, 105, 99, 101],
     [105, 110, 100, 105, 99, 101],
     [116, 97, 98, 108, 97],
     [99, 97, 112, 237, 116, 117, 108, 111],
     [99, 97, 112, 105, 116, 117, 108, 111],
     [99, 111, 110, 116, 101, 110, 105, 100, 111],
     [99, 111, 110, 116, 101, 110, 116, 115]]"
  by (simp add: junkHints_def units_def)


section \<open>The example inputs evaluated\<close>

lemma prose_facts [simp]:
  "length (prose n) = n" "set (prose n) = (if n = 0 then {} else {97})" "prose n = [] \<longleftrightarrow> n = 0"
  by (auto simp: prose_def)

lemma not_strIncludes: "\<not> set h \<subseteq> set s \<Longrightarrow> strIncludes s h = False"
  using set_mono_sublist [of h s] by (auto simp: strIncludes_sublist)

lemma no_hint_a_LF:
  assumes "set s \<subseteq> {97, LF}"
  shows "\<not> list_ex (\<lambda>h. strIncludes (toLowerCase s) h) junkHints"
proof -
  have "\<forall>c\<in>set s. lowerUnit c = [c]" using assms by (auto simp: lowerUnit_def)
  then have low: "toLowerCase s = s" by (rule toLowerCase_id)
  have "\<And>h. h \<in> set junkHints \<Longrightarrow> \<not> set h \<subseteq> {97, LF}"
    unfolding junkHints_eval by auto
  then have "\<And>h. h \<in> set junkHints \<Longrightarrow> \<not> strIncludes s h"
    using assms not_strIncludes by blast
  then show ?thesis by (simp add: low list_ex_iff)
qed

lemma no_digit_a_LF:
  assumes "set s \<subseteq> {97, LF}"
  shows "\<not> digitRule s"
proof -
  have "filter isDigit s = []" using assms by (auto simp: filter_empty_conv isDigit_def)
  then show ?thesis by (simp add: digitRule_def)
qed

lemma prose_window: "\<not> looksLikeJunk (join [LF, LF] [prose 250, prose 250, prose 250])"
proof -
  let ?w = "join [LF, LF] [prose 250, prose 250, prose 250]"
  let ?ls = "[prose 250, [], prose 250, [], prose 250]"
  have set: "set ?w \<subseteq> {97, LF}" by auto
  have len: "length ?w = 754" by simp
  have "?w = join [LF] ?ls" by simp
  moreover have "split [LF] [] (join [LF] ?ls) = ?ls"
    by (rule split_join) auto
  ultimately have "split [LF] [] ?w = ?ls" by simp
  then have "\<not> lineRule ?w" by (simp add: lineRule_def)
  with no_hint_a_LF [OF set] no_digit_a_LF [OF set] len show ?thesis
    by (simp add: looksLikeJunk_def)
qed

lemma plain_prose: "0 < n \<Longrightarrow> prose n \<noteq> [] \<and> (\<forall>c\<in>set (prose n). \<not> isWhiteSpace c)"
  by (simp add: isWhiteSpace_def)

lemma proseDoc_eval:
  "normalizeText proseDoc = proseDoc"
  "length proseDoc = 1258"
  "paragraphs proseDoc = [prose 250, prose 250, prose 250, prose 250, prose 250]"
proof -
  have plain: "\<forall>p\<in>set [prose 250, prose 250, prose 250, prose 250, prose 250].
                 p \<noteq> [] \<and> (\<forall>c\<in>set p. \<not> isWhiteSpace c)"
    using plain_prose [of 250] by simp
  show "normalizeText proseDoc = proseDoc"
    unfolding proseDoc_def using plain by (rule normalizeText_join)
  show "length proseDoc = 1258" by (simp add: proseDoc_def)
  show "paragraphs proseDoc = [prose 250, prose 250, prose 250, prose 250, prose 250]"
    unfolding proseDoc_def using plain by (rule paragraphs_join)
qed

lemma proseDoc_pick:
  "pickFragment (\<lambda>_. 0) proseDoc = Some (join [LF, LF] [prose 250, prose 250, prose 250])"
proof -
  let ?paras = "[prose 250, prose 250, prose 250, prose 250, prose 250]"
  have c: "clipped ?paras 0 = join [LF, LF] [prose 250, prose 250, prose 250]"
    by (simp add: clipped_def window_def elemAt_def)
  have "attempts (\<lambda>_. 0) ?paras 0 = Some (join [LF, LF] [prose 250, prose 250, prose 250])"
    using prose_window by (simp add: attempts.simps [of _ _ 0] randomIndex_def c)
  then show ?thesis by (simp add: pickFragment_def proseDoc_eval)
qed

lemma shortDoc_eval:
  "length (normalizeText shortDoc) = 799"
  "length (paragraphs (normalizeText shortDoc)) = 6"
proof -
  let ?ps = "[prose 131, prose 131, prose 131, prose 131, prose 131, prose 134]"
  have plain: "\<forall>p\<in>set ?ps. p \<noteq> [] \<and> (\<forall>c\<in>set p. \<not> isWhiteSpace c)"
    using plain_prose [of 131] plain_prose [of 134] by simp
  have n: "normalizeText shortDoc = shortDoc"
    unfolding shortDoc_def using plain by (rule normalizeText_join)
  show "length (normalizeText shortDoc) = 799" unfolding n by (simp add: shortDoc_def)
  have "paragraphs shortDoc = ?ps"
    unfolding shortDoc_def using plain by (rule paragraphs_join)
  then show "length (paragraphs (normalizeText shortDoc)) = 6" unfolding n by simp
qed

lemma fourDoc_eval:
  "length (normalizeText fourDoc) = 900"
  "length (paragraphs (normalizeText fourDoc)) = 4"
proof -
  let ?ps = "[prose 224, prose 224, prose 223, prose 223]"
  have plain: "\<forall>p\<in>set ?ps. p \<noteq> [] \<and> (\<forall>c\<in>set p. \<not> isWhiteSpace c)"
    using plain_prose [of 224] plain_prose [of 223] by simp
  have n: "normalizeText fourDoc = fourDoc"
    unfolding fourDoc_def using plain by (rule normalizeText_join)
  show "length (normalizeText fourDoc) = 900" unfolding n by (simp add: fourDoc_def)
  have "paragraphs fourDoc = ?ps"
    unfolding fourDoc_def using plain by (rule paragraphs_join)
  then show "length (paragraphs (normalizeText fourDoc)) = 4" unfolding n by simp
qed

lemma units_copyright: "units ''copyright'' = [99, 111, 112, 121, 114, 105, 103, 104, 116]"
  by (simp add: units_def)

lemma legal_facts:
  "length legal = 259" "legal \<noteq> []" "\<forall>c\<in>set legal. \<not> isWhiteSpace c"
  "prefix (units ''copyright'') legal"
  by (auto simp: legal_def units_copyright isWhiteSpace_def)

lemma junk_by_hint:
  assumes "h \<in> set junkHints" "sublist h (toLowerCase f)"
  shows "looksLikeJunk f"
  using assms by (auto simp: looksLikeJunk_def list_ex_iff strIncludes_sublist)

lemma legal_window_junk:
  assumes "prefix legal f"
  shows "looksLikeJunk (take 1600 f)"
proof -
  from assms obtain r where f: "f = units ''copyright'' @ prose 250 @ r"
    by (auto simp: prefix_def legal_def)
  have "take 1600 f = units ''copyright'' @ take 1591 (prose 250 @ r)"
    unfolding f by (simp add: units_copyright)
  moreover have "toLowerCase (units ''copyright'') = units ''copyright''"
    by (simp add: units_copyright toLowerCase_def lowerUnit_def)
  ultimately have "sublist (units ''copyright'') (toLowerCase (take 1600 f))"
    by (simp add: toLowerCase_append)
  moreover have "units ''copyright'' \<in> set junkHints" by (simp add: junkHints_def)
  ultimately show ?thesis using junk_by_hint by blast
qed

lemma legalDoc_eval:
  "normalizeText legalDoc = legalDoc"
  "length legalDoc = 1303"
  "paragraphs legalDoc = [legal, legal, legal, legal, legal]"
proof -
  have plain: "\<forall>p\<in>set [legal, legal, legal, legal, legal].
                 p \<noteq> [] \<and> (\<forall>c\<in>set p. \<not> isWhiteSpace c)"
    using legal_facts by simp
  show "normalizeText legalDoc = legalDoc"
    unfolding legalDoc_def using plain by (rule normalizeText_join)
  show "length legalDoc = 1303" by (simp add: legalDoc_def legal_facts)
  show "paragraphs legalDoc = [legal, legal, legal, legal, legal]"
    unfolding legalDoc_def using plain by (rule paragraphs_join)
qed

lemma legalDoc_windows:
  "\<forall>i<length (paragraphs (normalizeText legalDoc)).
     looksLikeJunk (clipped (paragraphs (normalizeText legalDoc)) i)"
proof -
  let ?paras = "[legal, legal, legal, legal, legal]"
  have "prefix legal (window ?paras i)" if "i < 5" for i
  proof -
    from that have "i = 0 \<or> i = 1 \<or> i = 2 \<or> i = 3 \<or> i = 4" by arith
    then show ?thesis
      by (auto simp: window_def elemAt_def legal_facts)
  qed
  then show ?thesis
    by (simp add: legalDoc_eval clipped_def legal_window_junk)
qed

lemma take_prose: "take n (prose m) = prose (min n m)"
  by (simp add: prose_def min.commute)


lemma long_window:
  "take 1600 (join [LF, LF] [prose 700, prose 700, prose 700]) =
     join [LF] [prose 700, [], prose 700, [], prose 196]"
  by (simp add: take_prose)

lemma long_window_usable: "\<not> looksLikeJunk (join [LF] [prose 700, [], prose 700, [], prose 196])"
proof -
  let ?ls = "[prose 700, [], prose 700, [], prose 196]"
  let ?w = "join [LF] ?ls"
  have set: "set ?w \<subseteq> {97, LF}" by auto
  have len: "length ?w = 1600" by simp
  have "split [LF] [] ?w = ?ls"
    by (rule split_join) auto
  then have "\<not> lineRule ?w" by (simp add: lineRule_def)
  with no_hint_a_LF [OF set] no_digit_a_LF [OF set] len show ?thesis
    by (simp add: looksLikeJunk_def)
qed

lemma longDoc_pick:
  "pickFragment (\<lambda>_. 2) longDoc = Some (join [LF] [prose 700, [], prose 700, [], prose 196])"
proof -
  let ?paras = "[prose 700, prose 700, prose 700, prose 700, prose 700]"
  have plain: "\<forall>p\<in>set ?paras. p \<noteq> [] \<and> (\<forall>c\<in>set p. \<not> isWhiteSpace c)"
    using plain_prose [of 700] by simp
  have n: "normalizeText longDoc = longDoc"
    unfolding longDoc_def using plain by (rule normalizeText_join)
  have l: "length longDoc = 3508" by (simp add: longDoc_def)
  have p: "paragraphs longDoc = ?paras"
    unfolding longDoc_def using plain by (rule paragraphs_join)
  have "window ?paras 2 = join [LF, LF] [prose 700, prose 700, prose 700]"
    by (simp add: window_def elemAt_def)
  then have c: "clipped ?paras 2 = join [LF] [prose 700, [], prose 700, [], prose 196]"
    unfolding clipped_def using long_window by simp
  have "attempts (\<lambda>_. 2) ?paras 0 = Some (join [LF] [prose 700, [], prose 700, [], prose 196])"
    using long_window_usable by (simp add: attempts.simps [of _ _ 0] randomIndex_def c)
  then show ?thesis by (simp add: pickFragment_def n l p)
qed

section \<open>Facts about runs of blanks and newlines\<close>

lemma replaceBlanks_append_Cons:
  "\<not> isBlank c \<Longrightarrow> replaceBlanks (x @ c # y) = replaceBlanks x @ c # replaceBlanks y"
proof (induction x rule: replaceBlanks.induct)
  case 1
  then show ?case by simp
next
  case (2 d ds)
  show ?case
  proof (cases "isBlank d")
    case True
    with 2 show ?thesis by (simp add: dropWhile_append3)
  next
    case False
    with 2 show ?thesis by simp
  qed
qed

lemma replaceBlanks_LFs: "replaceBlanks (replicate n LF @ y) = replicate n LF @ replaceBlanks y"
  by (induction n) (simp_all add: isBlank_def)

lemma last_replaceBlanks:
  "s \<noteq> [] \<Longrightarrow> last (replaceBlanks s) = (if isBlank (last s) then SP else last s)"
proof (induction s rule: replaceBlanks.induct)
  case 1
  then show ?case by simp
next
  case (2 c cs)
  show ?case
  proof (cases "isBlank c")
    case True
    let ?r = "dropWhile isBlank cs"
    show ?thesis
    proof (cases "?r = []")
      case e: True
      then have all: "\<forall>x\<in>set cs. isBlank x" by simp
      have "isBlank (last (c # cs))" using True all by (cases "cs = []") auto
      moreover have "replaceBlanks ?r = []" using e by (simp only: replaceBlanks.simps)
      ultimately show ?thesis using True by simp
    next
      case ne: False
      then have cs: "cs \<noteq> []" by auto
      from ne obtain x where "x \<in> set cs" "\<not> isBlank x" by auto
      then have "last ?r = last cs" by (rule dropWhile_last)
      moreover have "last (replaceBlanks ?r) = (if isBlank (last ?r) then SP else last ?r)"
        using 2 True ne by simp
      moreover have "replaceBlanks ?r \<noteq> []" using ne by (simp only: replaceBlanks_Nil_iff) simp
      ultimately show ?thesis using True cs by simp
    qed
  next
    case False
    show ?thesis
    proof (cases "cs = []")
      case True
      with False show ?thesis by simp
    next
      case ne: False
      then have "replaceBlanks cs \<noteq> []" by (simp add: replaceBlanks_Nil_iff)
      with 2 False ne show ?thesis by simp
    qed
  qed
qed

lemma set_replaceBlanks_keeps: "c \<in> set s \<Longrightarrow> \<not> isBlank c \<Longrightarrow> c \<in> set (replaceBlanks s)"
proof (induction s rule: replaceBlanks.induct)
  case 1
  then show ?case by simp
next
  case (2 d ds)
  show ?case
  proof (cases "isBlank d")
    case True
    with "2.prems" have "c \<in> set ds" by auto
    with "2.prems" have "c \<in> set (dropWhile isBlank ds)"
      by (metis (full_types) UnE set_append set_takeWhileD takeWhile_dropWhile_id)
    with 2 True show ?thesis by simp
  next
    case False
    with 2 show ?thesis by auto
  qed
qed

lemma set_replaceNewlines_eq: "set (replaceNewlines s) = set s"
proof (induction s rule: replaceNewlines.induct)
  case 1
  show ?case by simp
next
  case (2 c cs)
  show ?case
  proof (cases "c = LF \<and> 2 \<le> length (takeWhile (\<lambda>x. x = LF) cs)")
    case True
    have "set cs = set (takeWhile (\<lambda>x. x = LF) cs) \<union> set (dropWhile (\<lambda>x. x = LF) cs)"
      by (metis set_append takeWhile_dropWhile_id)
    moreover have "set (takeWhile (\<lambda>x. x = LF) cs) \<subseteq> {LF}"
      by (auto dest: set_takeWhileD)
    ultimately have "insert LF (set cs) = insert LF (set (dropWhile (\<lambda>x. x = LF) cs))" by auto
    with 2 True show ?thesis by simp
  next
    case False
    with 2 have "set (replaceNewlines cs) = set cs" by simp
    moreover from False have "replaceNewlines (c # cs) = c # replaceNewlines cs" by auto
    ultimately show ?thesis by simp
  qed
qed

lemma last_replaceNewlines: "last (replaceNewlines s) = last s"
proof (induction s rule: replaceNewlines.induct)
  case 1
  show ?case by simp
next
  case (2 c cs)
  show ?case
  proof (cases "c = LF \<and> 2 \<le> length (takeWhile (\<lambda>x. x = LF) cs)")
    case True
    let ?r = "dropWhile (\<lambda>x. x = LF) cs"
    from True obtain a b r where cs: "cs = a # b # r" "a = LF" "b = LF"
      by (auto simp: takeWhile_ge2)
    show ?thesis
    proof (cases "?r = []")
      case e: True
      then have "\<forall>x\<in>set cs. x = LF" by simp
      then have "last cs = LF" using cs by (metis last_in_set list.distinct(1))
      moreover have "replaceNewlines ?r = []" using e by (simp only: replaceNewlines.simps)
      ultimately show ?thesis using True cs by simp
    next
      case ne: False
      then obtain x where "x \<in> set cs" "\<not> x = LF" by auto
      then have "last ?r = last cs" by (rule dropWhile_last)
      moreover have "last (replaceNewlines ?r) = last ?r" using 2 True by simp
      moreover have "replaceNewlines ?r \<noteq> []" using ne by (simp only: replaceNewlines_Nil_iff) simp
      ultimately show ?thesis using True cs by simp
    qed
  next
    case False
    then have e: "replaceNewlines (c # cs) = c # replaceNewlines cs" by auto
    from False 2 have "last (replaceNewlines cs) = last cs" by simp
    then show ?thesis unfolding e by (simp add: replaceNewlines_Nil_iff)
  qed
qed


lemma replaceNewlines_run:
  assumes n: "3 \<le> n" and y: "y = [] \<or> hd y \<noteq> LF"
  shows "x = [] \<or> last x \<noteq> LF \<Longrightarrow>
         replaceNewlines (x @ replicate n LF @ y) = replaceNewlines x @ [LF, LF] @ replaceNewlines y"
proof (induction x rule: replaceNewlines.induct)
  case 1
  from n obtain k where "n = 3 + k" by (auto simp: le_iff_add)
  then obtain m where m: "n = Suc (Suc (Suc m))" by (simp add: numeral_3_eq_3)
  from y have "dropWhile (\<lambda>x. x = LF) y = y" by (cases y) auto
  then have "dropWhile (\<lambda>x. x = LF) (replicate m LF @ y) = y"
    by (induction m) simp_all
  then show ?case unfolding m by simp
next
  case (2 c cs)
  let ?R = "replicate n LF @ y"
  from "2.prems" have l: "last (c # cs) \<noteq> LF" by simp
  have tk: "takeWhile (\<lambda>x. x = LF) (cs @ ?R) = takeWhile (\<lambda>x. x = LF) cs"
    and dr: "dropWhile (\<lambda>x. x = LF) (cs @ ?R) = dropWhile (\<lambda>x. x = LF) cs @ ?R"
    and lst: "last (dropWhile (\<lambda>x. x = LF) cs) = last cs"
    if "cs \<noteq> []"
  proof -
    from that l have "last cs \<noteq> LF" by simp
    with that have ex: "last cs \<in> set cs" "\<not> last cs = LF" by simp_all
    show "takeWhile (\<lambda>x. x = LF) (cs @ ?R) = takeWhile (\<lambda>x. x = LF) cs"
      using ex by (rule takeWhile_append1)
    show "dropWhile (\<lambda>x. x = LF) (cs @ ?R) = dropWhile (\<lambda>x. x = LF) cs @ ?R"
      using ex by (rule dropWhile_append1)
    show "last (dropWhile (\<lambda>x. x = LF) cs) = last cs"
      using ex by (rule dropWhile_last)
  qed
  show ?case
  proof (cases "c = LF \<and> 2 \<le> length (takeWhile (\<lambda>x. x = LF) cs)")
    case True
    then have ne: "cs \<noteq> []" by auto
    let ?d = "dropWhile (\<lambda>x. x = LF) cs"
    have "?d = [] \<or> last ?d \<noteq> LF" using lst [OF ne] l ne by simp
    with "2.IH"(1) True
    have ih: "replaceNewlines (?d @ ?R) = replaceNewlines ?d @ [LF, LF] @ replaceNewlines y"
      by simp
    have "replaceNewlines ((c # cs) @ ?R) = LF # LF # replaceNewlines (?d @ ?R)"
      using True tk [OF ne] dr [OF ne] by simp
    moreover have "replaceNewlines (c # cs) = LF # LF # replaceNewlines ?d"
      using True by simp
    ultimately show ?thesis using ih by simp
  next
    case False
    have cond: "\<not> (c = LF \<and> 2 \<le> length (takeWhile (\<lambda>x. x = LF) (cs @ ?R)))"
    proof (cases "cs = []")
      case True
      with l show ?thesis by simp
    next
      case ne: False
      with False tk [OF ne] show ?thesis by simp
    qed
    have "cs = [] \<or> last cs \<noteq> LF" using l by auto
    with "2.IH"(2) False
    have ih: "replaceNewlines (cs @ ?R) = replaceNewlines cs @ [LF, LF] @ replaceNewlines y"
      by simp
    have "replaceNewlines ((c # cs) @ ?R) = c # replaceNewlines (cs @ ?R)"
      using cond by auto
    moreover have "replaceNewlines (c # cs) = c # replaceNewlines cs"
      using False by auto
    ultimately show ?thesis using ih by simp
  qed
qed

lemma trim_around:
  assumes "\<exists>c\<in>set A. \<not> isWhiteSpace c" "\<exists>c\<in>set B. \<not> isWhiteSpace c"
  shows "trim (A @ M @ B) = dropWhile isWhiteSpace A @ M @ rev (dropWhile isWhiteSpace (rev B))"
proof -
  from assms(1) obtain x where x: "x \<in> set A" "\<not> isWhiteSpace x" by auto
  from assms(2) obtain z where z: "z \<in> set (rev B)" "\<not> isWhiteSpace z" by auto
  have "dropWhile isWhiteSpace (A @ M @ B) = dropWhile isWhiteSpace A @ M @ B"
    using x by (rule dropWhile_append1)
  moreover have "dropWhile isWhiteSpace (rev B @ rev M @ rev (dropWhile isWhiteSpace A))
      = dropWhile isWhiteSpace (rev B) @ rev M @ rev (dropWhile isWhiteSpace A)"
    using z by (rule dropWhile_append1)
  ultimately show ?thesis by (simp add: trim_unfold)
qed

lemma replaceBlanks_run:
  assumes "bs \<noteq> []" "\<forall>c\<in>set bs. isBlank c"
  shows "replaceBlanks (x @ bs @ y) = replaceBlanks (x @ SP # y)"
proof (induction x rule: replaceBlanks.induct)
  case 1
  from assms obtain b bs' where bs: "bs = b # bs'" by (cases bs) auto
  with assms have "isBlank b" "\<forall>c\<in>set bs'. isBlank c" by auto
  then show ?case unfolding bs by (simp add: dropWhile_append2 isBlank_def)
next
  case (2 d ds)
  show ?case
  proof (cases "isBlank d")
    case False
    with 2 show ?thesis by simp
  next
    case True
    show ?thesis
    proof (cases "\<forall>c\<in>set ds. isBlank c")
      case all: True
      then have "dropWhile isBlank (ds @ bs @ y) = dropWhile isBlank y"
        using assms by (simp add: dropWhile_append2)
      moreover from all have "dropWhile isBlank (ds @ SP # y) = dropWhile isBlank y"
        by (simp add: dropWhile_append2 isBlank_def)
      ultimately show ?thesis using True by simp
    next
      case False
      then obtain c where c: "c \<in> set ds" "\<not> isBlank c" by auto
      have "dropWhile isBlank (ds @ bs @ y) = dropWhile isBlank ds @ bs @ y"
        using c by (rule dropWhile_append1)
      moreover have "dropWhile isBlank (ds @ SP # y) = dropWhile isBlank ds @ SP # y"
        using c by (rule dropWhile_append1)
      ultimately show ?thesis using True 2 by simp
    qed
  qed
qed


lemma replaceCR_append: "replaceCR (a @ b) = replaceCR a @ replaceCR b"
  by (simp add: replaceCR_def)

lemma replaceCR_blank: "\<forall>c\<in>set bs. isBlank c \<Longrightarrow> replaceCR bs = bs"
  by (rule replaceCR_id) (auto simp: isBlank_def)

lemma normalizeText_CR: "normalizeText (a @ CR # b) = normalizeText (a @ SP # b)"
  by (simp add: normalizeText_def replaceCR_def)

lemma normalizeText_blank_run:
  assumes "bs \<noteq> []" "\<forall>c\<in>set bs. isBlank c"
  shows "normalizeText (a @ bs @ b) = normalizeText (a @ SP # b)"
proof -
  have "replaceCR (a @ bs @ b) = replaceCR a @ bs @ replaceCR b"
    using assms(2) by (simp add: replaceCR_append replaceCR_blank)
  moreover have "replaceCR (a @ SP # b) = replaceCR a @ SP # replaceCR b"
    by (simp add: replaceCR_def)
  ultimately show ?thesis
    using replaceBlanks_run [OF assms, of "replaceCR a" "replaceCR b"]
    by (simp add: normalizeText_def)
qed

lemma normalizeText_newline_run:
  assumes n: "3 \<le> n"
    and a: "\<exists>c\<in>set a. \<not> isWhiteSpace c" "last a \<noteq> LF"
    and b: "\<exists>c\<in>set b. \<not> isWhiteSpace c" "hd b \<noteq> LF"
  defines "L \<equiv> trimStart (replaceNewlines (replaceBlanks (replaceCR a)))"
    and "R \<equiv> trimEnd (replaceNewlines (replaceBlanks (replaceCR b)))"
  shows "normalizeText (a @ replicate n LF @ b) = L @ [LF, LF] @ R"
    and "L \<noteq> []" and "last L \<noteq> LF" and "R \<noteq> []" and "hd R \<noteq> LF"
proof -
  let ?a1 = "replaceCR a" and ?b1 = "replaceCR b"
  let ?a2 = "replaceBlanks ?a1" and ?b2 = "replaceBlanks ?b1"
  let ?A = "replaceNewlines ?a2" and ?B = "replaceNewlines ?b2"
  from a obtain x where x: "x \<in> set a" "\<not> isWhiteSpace x" by auto
  from b obtain z where z: "z \<in> set b" "\<not> isWhiteSpace z" by auto
  have ane: "a \<noteq> []" and bne: "b \<noteq> []" using x z by auto
  have xb: "\<not> isBlank x" "x \<noteq> CR" and zb: "\<not> isBlank z" "z \<noteq> CR"
    using x z by (auto simp: isBlank_def)
  have "x \<in> set ?a1" using x xb by (auto simp: replaceCR_def)
  then have "x \<in> set ?a2" using xb by (simp add: set_replaceBlanks_keeps)
  then have xA: "x \<in> set ?A" by (simp add: set_replaceNewlines_eq)
  have "z \<in> set ?b1" using z zb by (auto simp: replaceCR_def)
  then have "z \<in> set ?b2" using zb by (simp add: set_replaceBlanks_keeps)
  then have zB: "z \<in> set ?B" by (simp add: set_replaceNewlines_eq)
  have a1: "?a1 \<noteq> []" "last ?a1 \<noteq> LF"
    using ane a(2) by (simp_all add: replaceCR_def last_map)
  then have a2: "?a2 \<noteq> []" "last ?a2 \<noteq> LF"
    by (simp_all add: replaceBlanks_Nil_iff last_replaceBlanks)
  have b1: "?b1 \<noteq> []" "hd ?b1 \<noteq> LF"
    using bne b(2) by (simp_all add: replaceCR_def hd_map)
  then have b2: "?b2 \<noteq> []" "hd ?b2 \<noteq> LF"
    by (simp_all add: replaceBlanks_Nil_iff hd_replaceBlanks)
  from n obtain m where m: "n = Suc m" by (cases n) auto
  have "replaceCR (a @ replicate n LF @ b) = ?a1 @ replicate n LF @ ?b1"
    by (simp add: replaceCR_def)
  moreover have "replaceBlanks (?a1 @ replicate n LF @ ?b1) = ?a2 @ replicate n LF @ ?b2"
    unfolding m using replaceBlanks_append_Cons [of LF ?a1 "replicate m LF @ ?b1"]
    by (simp add: isBlank_def replaceBlanks_LFs)
  moreover have "replaceNewlines (?a2 @ replicate n LF @ ?b2) = ?A @ [LF, LF] @ ?B"
    using n a2 b2 by (intro replaceNewlines_run) auto
  ultimately have "normalizeText (a @ replicate n LF @ b) = trim (?A @ [LF, LF] @ ?B)"
    by (simp add: normalizeText_def)
  also have "\<dots> = L @ [LF, LF] @ R"
    unfolding L_def R_def trimStart_def trimEnd_def
    using xA x(2) zB z(2) by (intro trim_around) auto
  finally show "normalizeText (a @ replicate n LF @ b) = L @ [LF, LF] @ R" .
  have Lne: "dropWhile isWhiteSpace ?A \<noteq> []" using xA x(2) by auto
  then show "L \<noteq> []" by (simp add: L_def trimStart_def)
  have "last (dropWhile isWhiteSpace ?A) = last ?A" using xA x(2) by (rule dropWhile_last)
  then show "last L \<noteq> LF" using a2 by (simp add: L_def trimStart_def last_replaceNewlines)
  have pre: "prefix R ?B"
    unfolding R_def trimEnd_def by (metis suffix_dropWhile suffix_to_prefix rev_rev_ident)
  have "dropWhile isWhiteSpace (rev ?B) \<noteq> []" using zB z(2) by auto
  then show Rne: "R \<noteq> []" by (simp add: R_def trimEnd_def)
  with pre have "hd R = hd ?B" by (cases R) (auto simp: prefix_def)
  then show "hd R \<noteq> LF" using b2 by (simp add: hd_replaceNewlines)
qed

section \<open>Facts about marker phrases and lines\<close>

lemma lowerUnit_isbn:
  "lowerUnit 73 = [105]" "lowerUnit 83 = [115]" "lowerUnit 66 = [98]" "lowerUnit 78 = [110]"
  "lowerUnit 105 = [105]" "lowerUnit 115 = [115]" "lowerUnit 98 = [98]" "lowerUnit 110 = [110]"
  by (simp_all add: lowerUnit_def)

lemma units_ISBN: "units ''ISBN'' = [73, 83, 66, 78]" "units ''isbn'' = [105, 115, 98, 110]"
  by (simp_all add: units_def)

lemma toLowerCase_ISBN:
  assumes "list_all2 (\<lambda>c u. c = u \<or> c = u + 32) w (units ''ISBN'')"
  shows "toLowerCase w = units ''isbn''"
proof -
  from assms obtain w1 w2 w3 w4 where w: "w = [w1, w2, w3, w4]"
    and c: "w1 = 73 \<or> w1 = 105" "w2 = 83 \<or> w2 = 115" "w3 = 66 \<or> w3 = 98" "w4 = 78 \<or> w4 = 110"
    unfolding units_ISBN by (auto simp: list_all2_Cons2)
  have "lowerUnit w1 = [105]" using c(1) lowerUnit_isbn by auto
  moreover have "lowerUnit w2 = [115]" using c(2) lowerUnit_isbn by auto
  moreover have "lowerUnit w3 = [98]" using c(3) lowerUnit_isbn by auto
  moreover have "lowerUnit w4 = [110]" using c(4) lowerUnit_isbn by auto
  ultimately show ?thesis unfolding units_ISBN w by (simp add: toLowerCase_def)
qed

lemma filterBoolean_Some: "\<forall>l\<in>set ls. l \<noteq> [] \<Longrightarrow> filterBoolean (map Some ls) = ls"
  by (induction ls) simp_all

lemma lines_join:
  assumes "ls \<noteq> []" "\<forall>l\<in>set ls. l \<noteq> [] \<and> LF \<notin> set l"
  shows "filterBoolean (map Some (split [LF] [] (join [LF] ls))) = ls"
proof -
  have "split [LF] [] (join [LF] ls) = ls"
    using assms by (intro split_join) auto
  then show ?thesis using assms by (simp add: filterBoolean_Some)
qed

lemma length_trim_le: "length (trim l) \<le> length l"
  by (rule sublist_length_le [OF sublist_trim])

lemma filterBoolean_filter: "filterBoolean (map Some ls) = filter (\<lambda>l. l \<noteq> []) ls"
  by (induction ls) simp_all

lemma sum_short_lines:
  "\<forall>l\<in>set ls. length l < 30 \<Longrightarrow>
   sum_list (map length ls) \<le> 29 * length (filter (\<lambda>l. l \<noteq> []) ls)"
proof (induction ls)
  case Nil
  show ?case by simp
next
  case (Cons l ls)
  then have "sum_list (map length ls) \<le> 29 * length (filter (\<lambda>l. l \<noteq> []) ls)" by simp
  moreover from Cons.prems have "length l \<le> 29" by simp
  ultimately show ?case by (cases "l = []") simp_all
qed

lemma short_lines_junk:
  assumes len: "length ls = 10" and ls: "\<forall>l\<in>set ls. LF \<notin> set l \<and> length l < 30"
  shows "looksLikeJunk (join [LF] ls)"
proof (cases "length (join [LF] ls) < 220")
  case True
  then show ?thesis by (simp add: looksLikeJunk_def)
next
  case False
  let ?lines = "filter (\<lambda>l. l \<noteq> []) ls"
  from len have ne: "ls \<noteq> []" by auto
  have "split [LF] [] (join [LF] ls) = ls"
    using ne ls by (intro split_join) auto
  then have lines: "filterBoolean (map Some (split [LF] [] (join [LF] ls))) = ?lines"
    by (simp add: filterBoolean_filter)
  from False len have "211 \<le> sum_list (map length ls)" by (simp add: length_join)
  also have "\<dots> \<le> 29 * length ?lines" using ls by (intro sum_short_lines) auto
  finally have many: "8 \<le> length ?lines" by simp
  have "\<forall>l\<in>set ?lines. length (trim l) < 30"
    using ls length_trim_le by (auto intro: le_less_trans)
  then have "filter (\<lambda>l. length (trim l) < 30) ?lines = ?lines"
    by (intro filter_True) auto
  moreover from many have "?lines \<noteq> []" by auto
  ultimately have "lineRule (join [LF] ls)" using many by (simp add: lineRule_def lines)
  then show ?thesis by (simp add: looksLikeJunk_def)
qed

section \<open>Facts about the orchestrator\<close>

declare queryLoop.simps [simp del]

lemma sent_fields [simp]:
  "shown (sent b f s) = shown s" "logged (sent b f s) = logged s"
  "queries (sent b f s) = queries s @ [(b, f)]"
  by (simp_all add: sent_def)

lemma queryLoop_done: "\<not> i < 6 \<Longrightarrow> queryLoop w b f i s = notify w (Exhausted b) s"
  by (simp add: queryLoop.simps [of w b f i s])

lemma queryLoop_throw:
  "i < 6 \<Longrightarrow> chat w i b f = Inl e \<Longrightarrow> queryLoop w b f i s = (Inl e, sent b f s)"
  by (simp add: queryLoop.simps [of w b f i s] askGroqForQuote_def)

lemma queryLoop_soft:
  assumes "i < 6" "chat w i b f = Inr c"
    and "answerText c = units ''SKIP'' \<or>
         \<not> truthy (getProp (safeJsonParse w (answerText c)) (units ''cita''))"
  shows "queryLoop w b f i s = queryLoop w b f (i + 1) (sent b f s)"
  using assms by (auto simp: queryLoop.simps [of w b f i s] askGroqForQuote_def Let_def)

lemma queryLoop_quote:
  assumes "i < 6" "chat w i b f = Inr c" "answerText c \<noteq> units ''SKIP''"
    and "truthy (getProp (safeJsonParse w (answerText c)) (units ''cita''))"
  shows "queryLoop w b f i s =
     (case saveQuoteToDailyMd w (getProp (safeJsonParse w (answerText c)) (units ''cita''))
             (getProp (safeJsonParse w (answerText c)) (units ''reflexion'')) b (sent b f s) of
        (Inl e, s2) \<Rightarrow> (Inl e, s2)
      | (Inr filePath, s2) \<Rightarrow>
          notify w (Quote (getProp (safeJsonParse w (answerText c)) (units ''cita''))
                      (getProp (safeJsonParse w (answerText c)) (units ''reflexion'')) b filePath) s2)"
  using assms by (simp add: queryLoop.simps [of w b f i s] askGroqForQuote_def Let_def)

lemma notify_queries: "queries (snd (notify w n s)) = queries s"
  by (simp add: notify_def split: option.splits)

lemma saveQuote_queries: "queries (snd (saveQuoteToDailyMd w c r b s)) = queries s"
  by (simp add: saveQuoteToDailyMd_def split: sum.splits)

lemma queryLoop_queries:
  "\<exists>k\<le>6 - i. queries (snd (queryLoop w b f i s)) = queries s @ replicate k (b, f)"
proof (induction w b f i s rule: queryLoop.induct)
  case (1 w b f i s)
  show ?case
  proof (cases "i < 6")
    case False
    then show ?thesis by (simp add: queryLoop_done notify_queries)
  next
    case True
    show ?thesis
    proof (cases "chat w i b f")
      case (Inl e)
      with True have "queries (snd (queryLoop w b f i s)) = queries s @ replicate 1 (b, f)"
        by (simp add: queryLoop_throw)
      moreover from True have "1 \<le> 6 - i" by simp
      ultimately show ?thesis by blast
    next
      case (Inr c)
      let ?out = "answerText c"
      let ?cita = "getProp (safeJsonParse w ?out) (units ''cita'')"
      have ask: "askGroqForQuote w i b f s = (Inr ?out, sent b f s)"
        using Inr by (simp add: askGroqForQuote_def)
      show ?thesis
      proof (cases "?out = units ''SKIP'' \<or> \<not> truthy ?cita")
        case soft: True
        have "\<exists>k\<le>6 - (i + 1). queries (snd (queryLoop w b f (i + 1) (sent b f s)))
                = queries (sent b f s) @ replicate k (b, f)"
        proof (cases "?out = units ''SKIP''")
          case True
          with "1.IH"(1) [OF \<open>i < 6\<close> ask [symmetric]] show ?thesis by simp
        next
          case False
          with soft have "\<not> truthy ?cita" by simp
          with "1.IH"(2) [OF \<open>i < 6\<close> ask [symmetric] _ False] show ?thesis by simp
        qed
        then obtain k where k: "k \<le> 6 - (i + 1)"
          "queries (snd (queryLoop w b f (i + 1) (sent b f s))) = queries s @ replicate (Suc k) (b, f)"
          by (auto simp: replicate_append_same)
        from True k(1) have "Suc k \<le> 6 - i" by simp
        with k(2) show ?thesis
          unfolding queryLoop_soft [OF True Inr soft] by blast
      next
        case False
        then have q: "?out \<noteq> units ''SKIP''" "truthy ?cita" by simp_all
        have "queries (snd (queryLoop w b f i s)) = queries s @ replicate 1 (b, f)"
          unfolding queryLoop_quote [OF True Inr q]
          by (auto simp: saveQuoteToDailyMd_def notify_queries split: sum.splits)
        moreover from True have "1 \<le> 6 - i" by simp
        ultimately show ?thesis by blast
      qed
    qed
  qed
qed


lemma queryLoop_all_soft:
  "\<forall>j<6. \<exists>c. chat w j b f = Inr c \<and>
      (answerText c = units ''SKIP'' \<or>
       \<not> truthy (getProp (safeJsonParse w (answerText c)) (units ''cita''))) \<Longrightarrow>
   queryLoop w b f i s =
     notify w (Exhausted b) (s\<lparr>queries := queries s @ replicate (6 - i) (b, f)\<rparr>)"
proof (induction "6 - i" arbitrary: i s)
  case 0
  then show ?case by (simp add: queryLoop_done)
next
  case (Suc k)
  then have i: "i < 6" and k: "k = 6 - (i + 1)" by simp_all
  from Suc.prems i obtain c where c: "chat w i b f = Inr c"
    "answerText c = units ''SKIP'' \<or>
     \<not> truthy (getProp (safeJsonParse w (answerText c)) (units ''cita''))"
    by blast
  have "queryLoop w b f i s = queryLoop w b f (i + 1) (sent b f s)"
    using i c by (rule queryLoop_soft)
  also have "\<dots> = notify w (Exhausted b)
      ((sent b f s)\<lparr>queries := queries (sent b f s) @ replicate (6 - (i + 1)) (b, f)\<rparr>)"
    using k Suc.prems by (intro Suc.hyps(1)) auto
  also have "(sent b f s)\<lparr>queries := queries (sent b f s) @ replicate (6 - (i + 1)) (b, f)\<rparr>
      = s\<lparr>queries := queries s @ replicate (6 - i) (b, f)\<rparr>"
  proof -
    from i have "6 - i = Suc (6 - (i + 1))" by simp
    then show ?thesis by (simp add: sent_def)
  qed
  finally show ?case .
qed

lemma runOnce_caught:
  "runBody w s = (Inl e, s') \<Longrightarrow> notifyThrows w (ErrorNote e) = None \<Longrightarrow>
   runOnce w s = (Inr (), s'\<lparr>shown := shown s' @ [ErrorNote e]\<rparr>)"
  by (simp add: runOnce_def notify_def)

lemma runOnce_returns:
  assumes "\<forall>e. notifyThrows w (ErrorNote e) = None"
  shows "fst (runOnce w s) = Inr ()"
proof (cases "runBody w s")
  case (Pair r s')
  then show ?thesis using assms by (cases r) (simp_all add: runOnce_def notify_def)
qed

lemma units_evals:
  "units ''SKIP'' = [83, 75, 73, 80]"
  "units '' SKIP '' = [32, 83, 75, 73, 80, 32]"
  "units ''sorry'' = [115, 111, 114, 114, 121]"
  "units ''cita'' = [99, 105, 116, 97]"
  "units ''reflexion'' = [114, 101, 102, 108, 101, 120, 105, 111, 110]"
  "units ''.pdf'' = [46, 112, 100, 102]"
  "units ''Book.PDF'' = [66, 111, 111, 107, 46, 80, 68, 70]"
  "units ''notes.txt'' = [110, 111, 116, 101, 115, 46, 116, 120, 116]"
  by (simp_all add: units_def)

lemma json_evals:
  "quoteJson = [123, 34, 99, 105, 116, 97, 34, 58, 34, 88, 34, 44, 34, 114, 101, 102, 108, 101,
                120, 105, 111, 110, 34, 58, 34, 89, 34, 125]"
  "emptyJson = [123, 34, 99, 105, 116, 97, 34, 58, 34, 34, 44, 34, 114, 101, 102, 108, 101,
                120, 105, 111, 110, 34, 58, 34, 89, 34, 125]"
  by (simp_all add: quoteJson_def emptyJson_def units_def)

lemma noCitaJson_eval:
  "noCitaJson = [123, 34, 114, 101, 102, 108, 101, 120, 105, 111, 110, 34, 58, 34, 89, 34, 125]"
  by (simp add: noCitaJson_def units_def)

lemma answer_evals:
  "answerText (Some (units '' SKIP '')) = units ''SKIP''"
  "answerText (Some (units ''SKIP'')) = units ''SKIP''"
  "answerText (Some (units ''sorry'')) = units ''sorry''"
  "answerText (Some emptyJson) = emptyJson"
  "answerText (Some quoteJson) = quoteJson"
  "answerText (Some noCitaJson) = noCitaJson"
  by (simp_all add: answerText_def units_evals json_evals noCitaJson_eval trim_unfold
      isWhiteSpace_def)

lemma parse_evals:
  "parseTable (units ''sorry'') = None"
  "parseTable emptyJson =
     Some (Obj [(units ''cita'', Str []), (units ''reflexion'', Str (units ''Y''))])"
  "parseTable quoteJson =
     Some (Obj [(units ''cita'', Str (units ''X'')), (units ''reflexion'', Str (units ''Y''))])"
  "quoteJson \<noteq> units ''SKIP''" "emptyJson \<noteq> units ''SKIP''" "units ''sorry'' \<noteq> units ''SKIP''"
  "parseTable noCitaJson = Some (Obj [(units ''reflexion'', Str (units ''Y''))])"
  by (simp_all add: parseTable_def units_evals json_evals noCitaJson_eval)

lemma cita_evals:
  "getProp (Obj [(units ''cita'', v), (units ''reflexion'', r)]) (units ''cita'') = v"
  "getProp (Obj [(units ''cita'', v), (units ''reflexion'', r)]) (units ''reflexion'') = r"
  by (simp_all add: units_evals)

lemma listPdfs_goodWorld:
  "listPdfs goodWorld (units ''books'') = Inr [(units ''books'', units ''Book.PDF'')]"
  by (simp add: listPdfs_def goodWorld_def units_evals toLowerCase_def lowerUnit_def
      suffix_to_prefix)


lemma runBody_start:
  assumes "BOOKS_DIR w = units ''books''" "readdirSync w = readdirSync goodWorld" "bookDraw w = 0"
  shows "runBody w s =
     (case extractPdfText w (units ''books'', book) of
        Inl e \<Rightarrow> (Inl e, s)
      | Inr fullText \<Rightarrow>
          (case pickFragment (fragDraws w) fullText of
             None \<Rightarrow> notify w (NoFragment book) s
           | Some fragment \<Rightarrow>
               if fragment = [] then notify w (NoFragment book) s
               else queryLoop w book fragment 0 s))"
proof -
  have "listPdfs w (units ''books'') = listPdfs goodWorld (units ''books'')"
    using assms(2) by (simp add: listPdfs_def)
  then have l: "listPdfs w (BOOKS_DIR w) = Inr [(units ''books'', book)]"
    using assms(1) by (simp add: listPdfs_goodWorld book_def)
  have r: "randomPick (bookDraw w) [(units ''books'', book)] = Some (units ''books'', book)"
    using assms(3) by (simp add: randomPick_def randomIndex_def elemAt_def)
  show ?thesis unfolding runBody_def l using r by simp
qed

lemma runBody_to_loop:
  assumes "BOOKS_DIR w = units ''books''" "readdirSync w = readdirSync goodWorld"
    "bookDraw w = 0" "pdfText w = (\<lambda>_. Inr (Some proseDoc))" "fragDraws w = (\<lambda>_. 0)"
  shows "runBody w s = queryLoop w book fragment3 0 s"
proof -
  have x: "extractPdfText w (units ''books'', book) = Inr proseDoc"
    using assms(4) by (simp add: extractPdfText_def)
  have "fragment3 \<noteq> []" by (simp add: fragment3_def)
  then show ?thesis
    unfolding runBody_start [OF assms(1-3)] x
    using assms(5) proseDoc_pick by (simp add: fragment3_def)
qed

lemma loop_goodChat:
  assumes "chat w = chat goodWorld" "jsonParse w = parseTable"
  shows "queryLoop w b f 0 s =
     (case saveQuoteToDailyMd w (Str (units ''X'')) (Str (units ''Y'')) b
             (s\<lparr>queries := queries s @ replicate 4 (b, f)\<rparr>) of
        (Inl e, s2) \<Rightarrow> (Inl e, s2)
      | (Inr filePath, s2) \<Rightarrow>
          notify w (Quote (Str (units ''X'')) (Str (units ''Y'')) b filePath) s2)"
proof -
  have c: "chat w 0 b f = Inr (Some (units '' SKIP ''))" "chat w 1 b f = Inr (Some (units ''sorry''))"
    "chat w 2 b f = Inr (Some emptyJson)" "chat w 3 b f = Inr (Some quoteJson)"
    by (simp_all add: assms(1) goodWorld_def)
  have p: "safeJsonParse w (units ''sorry'') = Null"
    "safeJsonParse w emptyJson = Obj [(units ''cita'', Str []), (units ''reflexion'', Str (units ''Y''))]"
    "safeJsonParse w quoteJson =
       Obj [(units ''cita'', Str (units ''X'')), (units ''reflexion'', Str (units ''Y''))]"
    by (simp_all add: safeJsonParse_def assms(2) parse_evals)
  have x: "units ''X'' \<noteq> []" by (simp add: units_def)
  have "queryLoop w b f 0 s = queryLoop w b f 1 (sent b f s)"
    using queryLoop_soft [of 0 w b f "Some (units '' SKIP '')" s] c(1)
    by (simp add: answer_evals)
  also have "\<dots> = queryLoop w b f 2 (sent b f (sent b f s))"
    using queryLoop_soft [of 1 w b f "Some (units ''sorry'')" "sent b f s"] c(2)
    by (simp add: answer_evals p numeral_2_eq_2)
  also have "\<dots> = queryLoop w b f 3 (sent b f (sent b f (sent b f s)))"
    using queryLoop_soft [of 2 w b f "Some emptyJson" "sent b f (sent b f s)"] c(3)
    by (simp add: answer_evals p cita_evals numeral_2_eq_2 numeral_3_eq_3 del: getProp.simps)
  also have "\<dots> =
     (case saveQuoteToDailyMd w (Str (units ''X'')) (Str (units ''Y'')) b
             (s\<lparr>queries := queries s @ replicate 4 (b, f)\<rparr>) of
        (Inl e, s2) \<Rightarrow> (Inl e, s2)
      | (Inr filePath, s2) \<Rightarrow>
          notify w (Quote (Str (units ''X'')) (Str (units ''Y'')) b filePath) s2)"
  proof -
    have q: "citaOf w (answerText (Some quoteJson)) = Str (units ''X'')"
      "reflexionOf w (answerText (Some quoteJson)) = Str (units ''Y'')"
      by (simp_all add: answer_evals p cita_evals del: getProp.simps)
    have "answerText (Some quoteJson) \<noteq> units ''SKIP''"
      by (simp add: answer_evals parse_evals)
    moreover have "truthy (citaOf w (answerText (Some quoteJson)))"
      unfolding q using x by simp
    ultimately show ?thesis
      using queryLoop_quote [of 3 w b f "Some quoteJson" "sent b f (sent b f (sent b f s))",
          unfolded q] c(4) x
      by (simp add: sent_def numeral_eq_Suc)
  qed
  finally show ?thesis .
qed

lemma world_fields:
  "BOOKS_DIR goodWorld = units ''books''" "bookDraw goodWorld = 0"
  "pdfText goodWorld = (\<lambda>_. Inr (Some proseDoc))" "fragDraws goodWorld = (\<lambda>_. 0)"
  "jsonParse goodWorld = parseTable" "appendFileSync goodWorld = (\<lambda>_ _ _. Inr logPath)"
  "notifyThrows goodWorld = (\<lambda>_. None)"
  by (simp_all add: goodWorld_def)

lemma run_noDirWorld:
  "runBody noDirWorld s = (Inl (Failure (units ''ENOENT'')), s)"
  by (simp add: runBody_def listPdfs_def noDirWorld_def)

lemma run_badPdfWorld:
  "runBody badPdfWorld s = (Inl (Failure (units ''bad XRef entry'')), s)"
proof -
  have "runBody badPdfWorld s =
     (case extractPdfText badPdfWorld (units ''books'', book) of
        Inl e \<Rightarrow> (Inl e, s)
      | Inr fullText \<Rightarrow>
          (case pickFragment (fragDraws badPdfWorld) fullText of
             None \<Rightarrow> notify badPdfWorld (NoFragment book) s
           | Some fragment \<Rightarrow>
               if fragment = [] then notify badPdfWorld (NoFragment book) s
               else queryLoop badPdfWorld book fragment 0 s))"
    by (rule runBody_start) (simp_all add: badPdfWorld_def world_fields)
  then show ?thesis by (simp add: extractPdfText_def badPdfWorld_def)
qed

lemma run_offlineWorld:
  "runBody offlineWorld s =
     (Inl (Failure (units ''ECONNREFUSED'')), s\<lparr>queries := queries s @ [(book, fragment3)]\<rparr>)"
proof -
  have "runBody offlineWorld s = queryLoop offlineWorld book fragment3 0 s"
    by (rule runBody_to_loop) (simp_all add: offlineWorld_def world_fields)
  also have "\<dots> = (Inl (Failure (units ''ECONNREFUSED'')), sent book fragment3 s)"
    by (rule queryLoop_throw) (simp_all add: offlineWorld_def)
  finally show ?thesis by (simp add: sent_def)
qed

lemma run_readOnlyWorld:
  "runBody readOnlyWorld s =
     (Inl (Failure (units ''EACCES'')), s\<lparr>queries := queries s @ replicate 4 (book, fragment3)\<rparr>)"
proof -
  have "runBody readOnlyWorld s = queryLoop readOnlyWorld book fragment3 0 s"
    by (rule runBody_to_loop) (simp_all add: readOnlyWorld_def world_fields)
  then show ?thesis
    by (simp add: loop_goodChat readOnlyWorld_def world_fields saveQuoteToDailyMd_def)
qed

lemma run_quote:
  assumes "BOOKS_DIR w = units ''books''" "readdirSync w = readdirSync goodWorld"
    "bookDraw w = 0" "pdfText w = (\<lambda>_. Inr (Some proseDoc))" "fragDraws w = (\<lambda>_. 0)"
    "chat w = chat goodWorld" "jsonParse w = parseTable"
    "appendFileSync w = (\<lambda>_ _ _. Inr logPath)"
  shows "runBody w s =
     notify w (Quote (Str (units ''X'')) (Str (units ''Y'')) book logPath)
       (s\<lparr>queries := queries s @ replicate 4 (book, fragment3),
           logged := logged s @ [(logPath, Str (units ''X''), Str (units ''Y''), book)]\<rparr>)"
  unfolding runBody_to_loop [OF assms(1-5)] loop_goodChat [OF assms(6,7)]
  by (simp add: saveQuoteToDailyMd_def assms(8))

lemma run_goodWorld:
  "runBody goodWorld emptyState =
     (Inr (), \<lparr>shown = [Quote (Str (units ''X'')) (Str (units ''Y'')) book logPath],
               logged = [(logPath, Str (units ''X''), Str (units ''Y''), book)],
               queries = replicate 4 (book, fragment3)\<rparr>)"
proof -
  have "runBody goodWorld emptyState =
     notify goodWorld (Quote (Str (units ''X'')) (Str (units ''Y'')) book logPath)
       (emptyState\<lparr>queries := queries emptyState @ replicate 4 (book, fragment3),
           logged := logged emptyState @ [(logPath, Str (units ''X''), Str (units ''Y''), book)]\<rparr>)"
    by (rule run_quote) (simp_all add: world_fields)
  then show ?thesis by (simp add: notify_def world_fields emptyState_def)
qed

lemma run_noQuoteNoteWorld:
  "runBody noQuoteNoteWorld emptyState =
     (Inl (Failure (units ''no notifier'')),
      \<lparr>shown = [], logged = [(logPath, Str (units ''X''), Str (units ''Y''), book)],
       queries = replicate 4 (book, fragment3)\<rparr>)"
proof -
  have "runBody noQuoteNoteWorld emptyState =
     notify noQuoteNoteWorld (Quote (Str (units ''X'')) (Str (units ''Y'')) book logPath)
       (emptyState\<lparr>queries := queries emptyState @ replicate 4 (book, fragment3),
           logged := logged emptyState @ [(logPath, Str (units ''X''), Str (units ''Y''), book)]\<rparr>)"
    by (rule run_quote) (simp_all add: noQuoteNoteWorld_def world_fields)
  then show ?thesis by (simp add: notify_def noQuoteNoteWorld_def emptyState_def)
qed

lemma run_noNotifierWorld:
  "runBody noNotifierWorld emptyState =
     (Inl (Failure (units ''no notifier'')),
      \<lparr>shown = [], logged = [(logPath, Str (units ''X''), Str (units ''Y''), book)],
       queries = replicate 4 (book, fragment3)\<rparr>)"
proof -
  have "runBody noNotifierWorld emptyState =
     notify noNotifierWorld (Quote (Str (units ''X'')) (Str (units ''Y'')) book logPath)
       (emptyState\<lparr>queries := queries emptyState @ replicate 4 (book, fragment3),
           logged := logged emptyState @ [(logPath, Str (units ''X''), Str (units ''Y''), book)]\<rparr>)"
    by (rule run_quote) (simp_all add: noNotifierWorld_def world_fields)
  then show ?thesis by (simp add: notify_def noNotifierWorld_def emptyState_def)
qed


section \<open>Facts about padded lines\<close>

lemma dropWhile_spaces: "dropWhile isWhiteSpace (replicate n SP @ ys) = dropWhile isWhiteSpace ys"
  by (induction n) simp_all

lemma padded_facts:
  "length padded = 40" "padded \<noteq> []" "LF \<notin> set padded" "set padded = {97, SP}"
  "trim padded = [97]"
proof -
  show "length padded = 40" "padded \<noteq> []" "LF \<notin> set padded" "set padded = {97, SP}"
    by (auto simp: padded_def)
  have "dropWhile isWhiteSpace (replicate 39 SP @ [97]) = [97]"
    unfolding dropWhile_spaces by (simp add: isWhiteSpace_def)
  then show "trim padded = [97]"
    by (simp add: trim_unfold padded_def isWhiteSpace_def)
qed

lemma no_hint_a_SP_LF:
  assumes "set s \<subseteq> {97, SP, LF}"
  shows "\<not> list_ex (\<lambda>h. strIncludes (toLowerCase s) h) junkHints"
proof -
  have "\<forall>c\<in>set s. lowerUnit c = [c]" using assms by (auto simp: lowerUnit_def)
  then have low: "toLowerCase s = s" by (rule toLowerCase_id)
  have "\<And>h. h \<in> set junkHints \<Longrightarrow> \<not> set h \<subseteq> {97, SP, LF}"
    unfolding junkHints_eval by auto
  then have "\<And>h. h \<in> set junkHints \<Longrightarrow> \<not> strIncludes s h"
    using assms not_strIncludes by blast
  then show ?thesis by (simp add: low list_ex_iff)
qed

lemma no_digit_a_SP_LF:
  assumes "set s \<subseteq> {97, SP, LF}"
  shows "\<not> digitRule s"
proof -
  have "filter isDigit s = []" using assms by (auto simp: filter_empty_conv isDigit_def)
  then show ?thesis by (simp add: digitRule_def)
qed

lemma few_lines_pass:
  assumes "ls \<noteq> []" "\<forall>l\<in>set ls. LF \<notin> set l" "length (filter (\<lambda>l. l \<noteq> []) ls) < 8"
  shows "\<not> lineRule (join [LF] ls)"
proof -
  have "split [LF] [] (join [LF] ls) = ls"
    using assms(1,2) by (intro split_join) auto
  then show ?thesis using assms(3) by (simp add: lineRule_def filterBoolean_filter)
qed

lemma paddedSeven_usable:
  "length paddedSeven = 289" "\<not> lineRule paddedSeven" "\<not> looksLikeJunk paddedSeven"
proof -
  let ?ls = "replicate 7 padded @ replicate 3 []"
  show len: "length paddedSeven = 289"
    by (simp add: paddedSeven_def length_join padded_facts sum_list_replicate)
  have "set paddedSeven \<subseteq> {97, SP, LF}"
    unfolding paddedSeven_def using set_join [of "[LF]" ?ls] by (auto simp: padded_facts)
  then have h: "\<not> list_ex (\<lambda>h. strIncludes (toLowerCase paddedSeven) h) junkHints"
    and d: "\<not> digitRule paddedSeven"
    by (rule no_hint_a_SP_LF, rule no_digit_a_SP_LF)
  show l: "\<not> lineRule paddedSeven"
    unfolding paddedSeven_def by (rule few_lines_pass) (auto simp: padded_facts)
  from len h d l show "\<not> looksLikeJunk paddedSeven" by (simp add: looksLikeJunk_def)
qed

lemma paddedTen_rejected:
  "length paddedTen = 409" "lineRule paddedTen" "looksLikeJunk paddedTen"
proof -
  show "length paddedTen = 409"
    by (simp add: paddedTen_def length_join padded_facts sum_list_replicate)
  have "filterBoolean (map Some (split [LF] [] paddedTen)) = replicate 10 padded"
    unfolding paddedTen_def by (rule lines_join) (auto simp: padded_facts)
  then show "lineRule paddedTen" by (simp add: lineRule_def padded_facts)
  then show "looksLikeJunk paddedTen" by (simp add: looksLikeJunk_def)
qed

lemma lineRule_join:
  assumes "ls \<noteq> []" "\<forall>l\<in>set ls. LF \<notin> set l"
  shows "lineRule (join [LF] ls) \<longleftrightarrow>
     8 \<le> length (filter (\<lambda>l. l \<noteq> []) ls) \<and>
     6 * length (filter (\<lambda>l. l \<noteq> []) ls)
       < 10 * length (filter (\<lambda>l. length (trim l) < 30) (filter (\<lambda>l. l \<noteq> []) ls))"
proof -
  have "split [LF] [] (join [LF] ls) = ls"
    using assms by (intro split_join) auto
  then show ?thesis by (simp add: lineRule_def filterBoolean_filter Let_def del: filter_filter)
qed

section \<open>Facts about failures in a run\<close>

lemma pickFragment_nonempty: "pickFragment rnd fullText = Some f \<Longrightarrow> f \<noteq> []"
proof -
  assume "pickFragment rnd fullText = Some f"
  then have "attempts rnd (paragraphs (normalizeText fullText)) 0 = Some f"
    by (auto simp: pickFragment_def Let_def split: if_splits)
  then have "\<not> looksLikeJunk f" by (auto dest: attempts_Some)
  then show ?thesis by (auto simp: looksLikeJunk_def)
qed

lemma runBody_listing_fails:
  "listPdfs w (BOOKS_DIR w) = Inl e \<Longrightarrow> runBody w s = (Inl e, s)"
  by (simp add: runBody_def)

lemma runBody_extract_fails:
  "listPdfs w (BOOKS_DIR w) = Inr pdfs \<Longrightarrow> pdfs \<noteq> [] \<Longrightarrow>
   randomPick (bookDraw w) pdfs = Some chosen \<Longrightarrow> extractPdfText w chosen = Inl e \<Longrightarrow>
   runBody w s = (Inl e, s)"
  by (simp add: runBody_def)

lemma runBody_reaches_loop:
  "listPdfs w (BOOKS_DIR w) = Inr pdfs \<Longrightarrow> pdfs \<noteq> [] \<Longrightarrow>
   randomPick (bookDraw w) pdfs = Some chosen \<Longrightarrow> extractPdfText w chosen = Inr fullText \<Longrightarrow>
   pickFragment (fragDraws w) fullText = Some f \<Longrightarrow>
   runBody w s = queryLoop w (snd chosen) f 0 s"
  by (simp add: runBody_def pickFragment_nonempty)

lemma queryLoop_skip_soft:
  "\<forall>j<i. \<exists>c. chat w j b f = Inr c \<and> softAnswer w c \<Longrightarrow> i \<le> 6 \<Longrightarrow>
   queryLoop w b f 0 s = queryLoop w b f i (s\<lparr>queries := queries s @ replicate i (b, f)\<rparr>)"
proof (induction i)
  case 0
  show ?case by simp
next
  case (Suc i)
  then have i: "i < 6" by simp
  from Suc.prems obtain c where c: "chat w i b f = Inr c" "softAnswer w c" by blast
  let ?s = "s\<lparr>queries := queries s @ replicate i (b, f)\<rparr>"
  have "queryLoop w b f 0 s = queryLoop w b f i ?s" using Suc by simp
  also have "\<dots> = queryLoop w b f (i + 1) (sent b f ?s)"
    using i c by (rule queryLoop_soft)
  also have "sent b f ?s = s\<lparr>queries := queries s @ replicate (Suc i) (b, f)\<rparr>"
    by (simp add: sent_def replicate_append_same)
  finally show ?case by simp
qed

lemma queryLoop_append_fails:
  assumes "i < 6" "chat w i b f = Inr c" "answerText c \<noteq> units ''SKIP''"
    "truthy (citaOf w (answerText c))"
    "appendFileSync w (citaOf w (answerText c)) (reflexionOf w (answerText c)) b = Inl e"
  shows "queryLoop w b f i s = (Inl e, sent b f s)"
  unfolding queryLoop_quote [OF assms(1-4)] using assms(5)
  by (simp add: saveQuoteToDailyMd_def)

lemma queryLoop_quote_note_fails:
  assumes "i < 6" "chat w i b f = Inr c" "answerText c \<noteq> units ''SKIP''"
    "truthy (citaOf w (answerText c))"
    "appendFileSync w (citaOf w (answerText c)) (reflexionOf w (answerText c)) b = Inr filePath"
    "notifyThrows w (Quote (citaOf w (answerText c)) (reflexionOf w (answerText c)) b filePath)
       = Some e"
  shows "queryLoop w b f i s =
     (Inl e, (sent b f s)\<lparr>logged := logged s @
        [(filePath, citaOf w (answerText c), reflexionOf w (answerText c), b)]\<rparr>)"
  unfolding queryLoop_quote [OF assms(1-4)] using assms(5,6)
  by (simp add: saveQuoteToDailyMd_def notify_def)

lemma runOnce_of_body: "runBody w s = (Inl e, s') \<Longrightarrow> runOnce w s = notify w (ErrorNote e) s'"
  by (simp add: runOnce_def)

lemma sent_after:
  "sent b f (s\<lparr>queries := queries s @ replicate i (b, f)\<rparr>)
     = s\<lparr>queries := queries s @ replicate (Suc i) (b, f)\<rparr>"
  by (simp add: sent_def replicate_append_same)

lemma derived_reach:
  assumes "BOOKS_DIR w = units ''books''" "readdirSync w = readdirSync goodWorld" "bookDraw w = 0"
  shows "listPdfs w (BOOKS_DIR w) = Inr [(units ''books'', book)]"
    and "randomPick (bookDraw w) [(units ''books'', book)] = Some (units ''books'', book)"
proof -
  have "listPdfs w (units ''books'') = listPdfs goodWorld (units ''books'')"
    using assms(2) by (simp add: listPdfs_def)
  then show "listPdfs w (BOOKS_DIR w) = Inr [(units ''books'', book)]"
    using assms(1) by (simp add: listPdfs_goodWorld book_def)
  show "randomPick (bookDraw w) [(units ''books'', book)] = Some (units ''books'', book)"
    using assms(3) by (simp add: randomPick_def randomIndex_def elemAt_def)
qed

lemma derived_fragment:
  assumes "pdfText w = (\<lambda>_. Inr (Some proseDoc))" "fragDraws w = (\<lambda>_. 0)"
  shows "extractPdfText w p = Inr proseDoc" "pickFragment (fragDraws w) proseDoc = Some fragment3"
  using assms proseDoc_pick by (simp_all add: extractPdfText_def fragment3_def)

lemma derived_soft:
  assumes "chat w = chat goodWorld" "jsonParse w = parseTable"
  shows "\<forall>j<3. \<exists>c. chat w j b f = Inr c \<and> softAnswer w c"
    and "chat w 3 b f = Inr (Some quoteJson)"
    and "citaOf w (answerText (Some quoteJson)) = Str (units ''X'')"
    and "reflexionOf w (answerText (Some quoteJson)) = Str (units ''Y'')"
proof -
  have p: "safeJsonParse w (units ''sorry'') = Null"
    "safeJsonParse w emptyJson = Obj [(units ''cita'', Str []), (units ''reflexion'', Str (units ''Y''))]"
    "safeJsonParse w quoteJson =
       Obj [(units ''cita'', Str (units ''X'')), (units ''reflexion'', Str (units ''Y''))]"
    by (simp_all add: safeJsonParse_def assms(2) parse_evals)
  have c: "chat w 0 b f = Inr (Some (units '' SKIP ''))" "chat w 1 b f = Inr (Some (units ''sorry''))"
    "chat w 2 b f = Inr (Some emptyJson)" "chat w 3 b f = Inr (Some quoteJson)"
    by (simp_all add: assms(1) goodWorld_def)
  show "chat w 3 b f = Inr (Some quoteJson)" by (rule c)
  show "citaOf w (answerText (Some quoteJson)) = Str (units ''X'')"
    "reflexionOf w (answerText (Some quoteJson)) = Str (units ''Y'')"
    by (simp_all add: answer_evals p cita_evals del: getProp.simps)
  have s0: "softAnswer w (Some (units '' SKIP ''))" by (simp add: answer_evals)
  have s1: "softAnswer w (Some (units ''sorry''))" by (simp add: answer_evals p)
  have s2: "softAnswer w (Some emptyJson)"
    by (simp add: answer_evals p cita_evals del: getProp.simps)
  show "\<forall>j<3. \<exists>c. chat w j b f = Inr c \<and> softAnswer w c"
  proof (intro allI impI)
    fix j :: nat
    assume "j < 3"
    then have "j = 0 \<or> j = 1 \<or> j = 2" by arith
    then show "\<exists>c. chat w j b f = Inr c \<and> softAnswer w c"
      using c s0 s1 s2 by blast
  qed
qed

section \<open>The fragment selector: what it returns\<close>

text \<open>
  Claim C1. Whatever the document and whatever the random draws, a fragment returned by
  \<open>pickFragment\<close> has been classified usable by \<open>looksLikeJunk\<close> (the classifier returns
  false on it) and is at most 1600 units long.
\<close>

theorem pickFragment_usable:
  "pickFragment rnd fullText = Some f \<Longrightarrow> \<not> looksLikeJunk f \<and> length f \<le> 1600"
  by (auto simp: pickFragment_def Let_def attempts_Some split: if_splits)

theorem pickFragment_usable_witness:
  "pickFragment (\<lambda>_. 0) proseDoc = Some (join [LF, LF] [prose 250, prose 250, prose 250]) \<and>
   \<not> looksLikeJunk (join [LF, LF] [prose 250, prose 250, prose 250]) \<and>
   length (join [LF, LF] [prose 250, prose 250, prose 250]) = 754 \<and>
   pickFragment (\<lambda>_. 2) longDoc = Some (join [LF] [prose 700, [], prose 700, [], prose 196]) \<and>
   \<not> looksLikeJunk (join [LF] [prose 700, [], prose 700, [], prose 196]) \<and>
   length (join [LF] [prose 700, [], prose 700, [], prose 196]) = 1600"
  using pickFragment_usable [OF proseDoc_pick] proseDoc_pick
    pickFragment_usable [OF longDoc_pick] longDoc_pick
  by simp

text \<open>
  Claim C3. A document whose normalized text has fewer than 800 units yields no fragment,
  however many paragraphs it has; and a document whose normalized text splits into fewer
  than 5 non-empty trimmed paragraphs yields no fragment either.
\<close>

theorem pickFragment_too_small:
  "(length (normalizeText fullText) < 800 \<longrightarrow> pickFragment rnd fullText = None) \<and>
   (length (paragraphs (normalizeText fullText)) < 5 \<longrightarrow> pickFragment rnd fullText = None)"
  by (simp add: pickFragment_def Let_def)

theorem pickFragment_too_small_witness:
  "length (normalizeText shortDoc) = 799 \<and>
   length (paragraphs (normalizeText shortDoc)) = 6 \<and>
   pickFragment (\<lambda>_. 0) shortDoc = None \<and>
   length (normalizeText fourDoc) = 900 \<and>
   length (paragraphs (normalizeText fourDoc)) = 4 \<and>
   pickFragment (\<lambda>_. 0) fourDoc = None"
  using pickFragment_too_small [of shortDoc "\<lambda>_. 0"] pickFragment_too_small [of fourDoc "\<lambda>_. 0"]
  by (simp add: shortDoc_eval fourDoc_eval)

text \<open>
  Claim C4. If every window that can be sampled from the paragraphs of a document (one to
  three consecutive paragraphs joined by a blank line and cut to 1600 units) is classified
  junk, then \<open>pickFragment\<close> returns nothing, whatever the twelve random draws are. The
  example is a document of five paragraphs that all start with the word copyright.
\<close>

theorem pickFragment_all_junk:
  assumes "\<forall>i<length (paragraphs (normalizeText fullText)).
             looksLikeJunk (clipped (paragraphs (normalizeText fullText)) i)"
  shows "pickFragment rnd fullText = None"
proof -
  let ?paras = "paragraphs (normalizeText fullText)"
  show ?thesis
  proof (cases "length ?paras < 5")
    case True
    then show ?thesis by (simp add: pickFragment_def Let_def)
  next
    case False
    then have "?paras \<noteq> []" by auto
    then have "attempts rnd ?paras 0 = None" using assms by (rule attempts_None)
    then show ?thesis by (simp add: pickFragment_def Let_def)
  qed
qed

theorem pickFragment_all_junk_witness:
  "800 \<le> length (normalizeText legalDoc) \<and>
   paragraphs (normalizeText legalDoc) = [legal, legal, legal, legal, legal] \<and>
   looksLikeJunk (clipped [legal, legal, legal, legal, legal] 0) \<and>
   looksLikeJunk (clipped [legal, legal, legal, legal, legal] 1) \<and>
   looksLikeJunk (clipped [legal, legal, legal, legal, legal] 2) \<and>
   looksLikeJunk (clipped [legal, legal, legal, legal, legal] 3) \<and>
   looksLikeJunk (clipped [legal, legal, legal, legal, legal] 4) \<and>
   pickFragment (\<lambda>k. k) legalDoc = None"
  using pickFragment_all_junk [OF legalDoc_windows, of "\<lambda>k. k"] legalDoc_windows
  by (simp add: legalDoc_eval)

section \<open>The text normalizer: idempotence\<close>

text \<open>
  Claim C10. \<open>normalizeText\<close> is idempotent: normalizing a normalized text changes nothing.
\<close>

theorem normalizeText_idempotent: "normalizeText (normalizeText t) = normalizeText t"
  by (rule normalizeText_fixed) (simp_all add: normalizeText_props)

section \<open>The text normalizer: its output\<close>

text \<open>
  Claim C5, as the code has it. For every input the output of \<open>normalizeText\<close> holds no
  carriage return (a carriage return counts as a space), no tab and no two adjacent
  spaces (a run of spaces and tabs counts as one space), no whitespace at either end and
  no run of three or more newlines. A run of three or more newlines that is maximal and
  has a unit other than whitespace somewhere before it and somewhere after it comes out
  as exactly two newlines, between the normalized text before it and the normalized text
  after it. (A run with only whitespace before or after it is trimmed away with that
  whitespace.)
\<close>

theorem normalizeText_output:
  "CR \<notin> set (normalizeText t) \<and>
   normalizeText (a1 @ CR # b1) = normalizeText (a1 @ SP # b1) \<and>
   TAB \<notin> set (normalizeText t) \<and>
   \<not> strIncludes (normalizeText t) [SP, SP] \<and>
   (bs \<noteq> [] \<and> (\<forall>c\<in>set bs. isBlank c) \<longrightarrow>
      normalizeText (a2 @ bs @ b2) = normalizeText (a2 @ SP # b2)) \<and>
   (normalizeText t \<noteq> [] \<longrightarrow>
      \<not> isWhiteSpace (hd (normalizeText t)) \<and> \<not> isWhiteSpace (last (normalizeText t))) \<and>
   \<not> strIncludes (normalizeText t) [LF, LF, LF] \<and>
   (3 \<le> n \<and> (\<exists>c\<in>set a. \<not> isWhiteSpace c) \<and> last a \<noteq> LF \<and>
    (\<exists>c\<in>set b. \<not> isWhiteSpace c) \<and> hd b \<noteq> LF \<longrightarrow>
      normalizeText (a @ replicate n LF @ b) =
        trimStart (replaceNewlines (replaceBlanks (replaceCR a))) @ [LF, LF] @
        trimEnd (replaceNewlines (replaceBlanks (replaceCR b))) \<and>
      trimStart (replaceNewlines (replaceBlanks (replaceCR a))) \<noteq> [] \<and>
      last (trimStart (replaceNewlines (replaceBlanks (replaceCR a)))) \<noteq> LF \<and>
      trimEnd (replaceNewlines (replaceBlanks (replaceCR b))) \<noteq> [] \<and>
      hd (trimEnd (replaceNewlines (replaceBlanks (replaceCR b)))) \<noteq> LF)"
proof (intro conjI impI)
  show "CR \<notin> set (normalizeText t)" by (rule normalizeText_props)
  show "normalizeText (a1 @ CR # b1) = normalizeText (a1 @ SP # b1)" by (rule normalizeText_CR)
  show "TAB \<notin> set (normalizeText t)" by (rule normalizeText_props)
  show "\<not> strIncludes (normalizeText t) [SP, SP]"
    unfolding strIncludes_sublist by (rule normalizeText_props)
  show "\<not> strIncludes (normalizeText t) [LF, LF, LF]"
    unfolding strIncludes_sublist by (rule normalizeText_props)
  show "normalizeText (a2 @ bs @ b2) = normalizeText (a2 @ SP # b2)"
    if "bs \<noteq> [] \<and> (\<forall>c\<in>set bs. isBlank c)"
    using that by (intro normalizeText_blank_run) auto
  show "\<not> isWhiteSpace (hd (normalizeText t))" if "normalizeText t \<noteq> []"
    using that by (rule normalizeText_props)
  show "\<not> isWhiteSpace (last (normalizeText t))" if "normalizeText t \<noteq> []"
    using that by (rule normalizeText_props)
next
  assume h: "3 \<le> n \<and> (\<exists>c\<in>set a. \<not> isWhiteSpace c) \<and> last a \<noteq> LF \<and>
             (\<exists>c\<in>set b. \<not> isWhiteSpace c) \<and> hd b \<noteq> LF"
  note r = normalizeText_newline_run [of n a b]
  show "normalizeText (a @ replicate n LF @ b) =
        trimStart (replaceNewlines (replaceBlanks (replaceCR a))) @ [LF, LF] @
        trimEnd (replaceNewlines (replaceBlanks (replaceCR b)))"
    using h by (intro r(1)) auto
  show "trimStart (replaceNewlines (replaceBlanks (replaceCR a))) \<noteq> []"
    using h by (intro r(2)) auto
  show "last (trimStart (replaceNewlines (replaceBlanks (replaceCR a)))) \<noteq> LF"
    using h by (intro r(3)) auto
  show "trimEnd (replaceNewlines (replaceBlanks (replaceCR b))) \<noteq> []"
    using h by (intro r(4)) auto
  show "hd (trimEnd (replaceNewlines (replaceBlanks (replaceCR b)))) \<noteq> LF"
    using h by (intro r(5)) auto
qed

theorem normalizeText_output_witness:
  "isBlank SP \<and> isBlank TAB \<and>
   normalizeText ([120] @ [SP, TAB, SP] @ [121]) = [120, SP, 121] \<and>
   normalizeText ([120] @ SP # [121]) = [120, SP, 121] \<and>
   normalizeText [SP, 120, CR, LF, LF, LF, LF, TAB, 122, LF] = [120, SP, LF, LF, SP, 122] \<and>
   \<not> isWhiteSpace 120 \<and> \<not> isWhiteSpace 122 \<and>
   normalizeText ([SP, 120, CR] @ replicate 4 LF @ [TAB, 122, LF]) =
     trimStart (replaceNewlines (replaceBlanks (replaceCR [SP, 120, CR]))) @ [LF, LF] @
     trimEnd (replaceNewlines (replaceBlanks (replaceCR [TAB, 122, LF]))) \<and>
   trimStart (replaceNewlines (replaceBlanks (replaceCR [SP, 120, CR]))) = [120, SP] \<and>
   trimEnd (replaceNewlines (replaceBlanks (replaceCR [TAB, 122, LF]))) = [SP, 122]"
  using normalizeText_output [where t = "[SP, 120, CR, LF, LF, LF, LF, TAB, 122, LF]"
      and ?a2.0 = "[120]" and bs = "[SP, TAB, SP]" and ?b2.0 = "[121]"
      and a = "[SP, 120, CR]" and n = 4 and b = "[TAB, 122, LF]"]
  by (simp add: normalizeText_def replaceCR_def trim_unfold trimStart_def trimEnd_def
      isBlank_def isWhiteSpace_def)

text \<open>
  Claim C5 as it is written fails on a run at the end of the text: the input
  \<open>"a\\n\\n\\n"\<close> holds three newlines in a row, and the output \<open>"a"\<close> holds no two newlines
  in a row where they were.
\<close>

theorem normalizeText_trailing_run:
  "strIncludes [97, LF, LF, LF] [LF, LF, LF] \<and>
   normalizeText [97, LF, LF, LF] = [97] \<and>
   \<not> strIncludes (normalizeText [97, LF, LF, LF]) [LF, LF]"
  by (simp add: normalizeText_def replaceCR_def trim_unfold isBlank_def isWhiteSpace_def)

section \<open>The junk classifier\<close>

text \<open>
  Claim C7. A fragment that holds the letters ISBN, each in upper or lower case, is
  classified junk, whatever its length and whatever surrounds the letters.
\<close>

theorem isbn_is_junk:
  assumes "list_all2 (\<lambda>c u. c = u \<or> c = u + 32) w (units ''ISBN'')"
  shows "looksLikeJunk (a @ w @ b)"
proof -
  have "toLowerCase (a @ w @ b) = toLowerCase a @ units ''isbn'' @ toLowerCase b"
    by (simp add: toLowerCase_append toLowerCase_ISBN [OF assms])
  then have "sublist (units ''isbn'') (toLowerCase (a @ w @ b))" by simp
  moreover have "units ''isbn'' \<in> set junkHints" by (simp add: junkHints_def)
  ultimately show ?thesis using junk_by_hint by blast
qed

theorem isbn_is_junk_witness:
  "list_all2 (\<lambda>c u. c = u \<or> c = u + 32) (units ''IsBn'') (units ''ISBN'') \<and>
   length (prose 300 @ units ''IsBn'' @ prose 20) = 324 \<and>
   looksLikeJunk (prose 300 @ units ''IsBn'' @ prose 20) \<and>
   looksLikeJunk ([] @ units ''IsBn'' @ [])"
proof -
  have v: "list_all2 (\<lambda>c u. c = u \<or> c = u + 32) (units ''IsBn'') (units ''ISBN'')"
    by (simp add: units_def)
  show ?thesis
    using v isbn_is_junk [OF v, of "prose 300" "prose 20"] isbn_is_junk [OF v, of "[]" "[]"]
    by (simp add: units_def)
qed

text \<open>
  Claim C6, as the code has it. The line-shape rule (\<open>lineRule\<close>) counts the non-empty
  lines only and measures each of them after trimming. A fragment of 10 non-empty lines,
  each of trimmed length under 30, is junk by the rule, and so \<open>looksLikeJunk\<close> returns
  true on it. When the 10 lines are each under 30 units before trimming, the fragment is
  junk even if some of them are empty. A fragment of 10 lines each of trimmed length 40
  or more is not rejected by the rule, and neither is any fragment with fewer than 8
  non-empty lines. In general the rule rejects a fragment exactly when it has at least 8
  non-empty lines and more than 60 percent of them have trimmed length under 30.
\<close>

theorem line_shape_rule:
  "(length ls = 10 \<and> (\<forall>l\<in>set ls. l \<noteq> [] \<and> LF \<notin> set l \<and> length (trim l) < 30) \<longrightarrow>
      lineRule (join [LF] ls) \<and> looksLikeJunk (join [LF] ls)) \<and>
   (length ls = 10 \<and> (\<forall>l\<in>set ls. LF \<notin> set l \<and> length l < 30) \<longrightarrow>
      looksLikeJunk (join [LF] ls)) \<and>
   (length ls = 10 \<and> (\<forall>l\<in>set ls. LF \<notin> set l \<and> 40 \<le> length (trim l)) \<longrightarrow>
      \<not> lineRule (join [LF] ls)) \<and>
   (ls \<noteq> [] \<and> (\<forall>l\<in>set ls. LF \<notin> set l) \<and> length (filter (\<lambda>l. l \<noteq> []) ls) < 8 \<longrightarrow>
      \<not> lineRule (join [LF] ls)) \<and>
   (ls \<noteq> [] \<and> (\<forall>l\<in>set ls. LF \<notin> set l) \<longrightarrow>
      lineRule (join [LF] ls) =
        (8 \<le> length (filter (\<lambda>l. l \<noteq> []) ls) \<and>
         6 * length (filter (\<lambda>l. l \<noteq> []) ls)
           < 10 * length (filter (\<lambda>l. length (trim l) < 30) (filter (\<lambda>l. l \<noteq> []) ls))))"
proof (intro conjI impI)
  assume a: "length ls = 10 \<and> (\<forall>l\<in>set ls. l \<noteq> [] \<and> LF \<notin> set l \<and> length (trim l) < 30)"
  then have ne: "ls \<noteq> []" by auto
  from a have "filterBoolean (map Some (split [LF] [] (join [LF] ls))) = ls"
    using lines_join [OF ne] by simp
  moreover from a have "filter (\<lambda>l. length (trim l) < 30) ls = ls" by (simp add: filter_id_conv)
  ultimately show r: "lineRule (join [LF] ls)" using a by (simp add: lineRule_def)
  then show "looksLikeJunk (join [LF] ls)" by (simp add: looksLikeJunk_def)
next
  assume "length ls = 10 \<and> (\<forall>l\<in>set ls. LF \<notin> set l \<and> length l < 30)"
  then show "looksLikeJunk (join [LF] ls)" by (intro short_lines_junk) auto
next
  assume a: "length ls = 10 \<and> (\<forall>l\<in>set ls. LF \<notin> set l \<and> 40 \<le> length (trim l))"
  then have ne: "ls \<noteq> []" by auto
  from a have "\<forall>l\<in>set ls. l \<noteq> []" by auto
  with a have "filterBoolean (map Some (split [LF] [] (join [LF] ls))) = ls"
    using lines_join [OF ne] by simp
  moreover from a have "filter (\<lambda>l. length (trim l) < 30) ls = []"
    by (auto simp: filter_empty_conv)
  ultimately show "\<not> lineRule (join [LF] ls)" by (simp add: lineRule_def)
next
  assume "ls \<noteq> [] \<and> (\<forall>l\<in>set ls. LF \<notin> set l) \<and> length (filter (\<lambda>l. l \<noteq> []) ls) < 8"
  then show "\<not> lineRule (join [LF] ls)" by (intro few_lines_pass) auto
next
  assume "ls \<noteq> [] \<and> (\<forall>l\<in>set ls. LF \<notin> set l)"
  then show "lineRule (join [LF] ls) =
        (8 \<le> length (filter (\<lambda>l. l \<noteq> []) ls) \<and>
         6 * length (filter (\<lambda>l. l \<noteq> []) ls)
           < 10 * length (filter (\<lambda>l. length (trim l) < 30) (filter (\<lambda>l. l \<noteq> []) ls)))"
    by (intro lineRule_join) auto
qed

theorem line_shape_rule_witness:
  "length (replicate 10 (prose 25)) = 10 \<and>
   prose 25 \<noteq> [] \<and> LF \<notin> set (prose 25) \<and> length (trim (prose 25)) = 25 \<and>
   length (join [LF] (replicate 10 (prose 25))) = 259 \<and>
   \<not> list_ex (\<lambda>h. strIncludes (toLowerCase (join [LF] (replicate 10 (prose 25)))) h) junkHints \<and>
   \<not> digitRule (join [LF] (replicate 10 (prose 25))) \<and>
   lineRule (join [LF] (replicate 10 (prose 25))) \<and>
   looksLikeJunk (join [LF] (replicate 10 (prose 25))) \<and>
   padded \<noteq> [] \<and> LF \<notin> set padded \<and> length (trim padded) = 1 \<and>
   lineRule (join [LF] (replicate 10 padded)) \<and>
   length (prose 29) = 29 \<and>
   looksLikeJunk (join [LF] (replicate 7 (prose 29) @ replicate 3 [])) \<and>
   LF \<notin> set (prose 40) \<and> length (trim (prose 40)) = 40 \<and>
   \<not> lineRule (join [LF] (replicate 10 (prose 40))) \<and>
   length (filter (\<lambda>l. l \<noteq> []) (replicate 7 padded @ replicate 3 [])) = 7 \<and>
   \<not> lineRule (join [LF] (replicate 7 padded @ replicate 3 []))"
proof -
  have t: "trim (prose 25) = prose 25" "trim (prose 40) = prose 40"
    by (rule notWhite_trim; simp add: isWhiteSpace_def)+
  have "set (join [LF] (replicate 10 (prose 25))) \<subseteq> {97, LF}"
    using set_join [of "[LF]" "replicate 10 (prose 25)"] by auto
  then have "\<not> list_ex (\<lambda>h. strIncludes (toLowerCase (join [LF] (replicate 10 (prose 25)))) h) junkHints"
    and "\<not> digitRule (join [LF] (replicate 10 (prose 25)))"
    by (rule no_hint_a_LF, rule no_digit_a_LF)
  moreover have "length (join [LF] (replicate 10 (prose 25))) = 259"
    by (simp add: length_join sum_list_replicate)
  moreover have "looksLikeJunk (join [LF] (replicate 7 (prose 29) @ replicate 3 []))"
    using line_shape_rule [of "replicate 7 (prose 29) @ replicate 3 []"] by auto
  moreover have "lineRule (join [LF] (replicate 10 padded))"
    using line_shape_rule [of "replicate 10 padded"] by (simp add: padded_facts)
  moreover have "length (filter (\<lambda>l. l \<noteq> []) (replicate 7 padded @ replicate 3 [])) = 7"
    by (simp add: padded_facts)
  moreover have "\<not> lineRule (join [LF] (replicate 7 padded @ replicate 3 []))"
    using line_shape_rule [of "replicate 7 padded @ replicate 3 []"]
    by (simp add: padded_facts)
  ultimately show ?thesis
    using line_shape_rule [of "replicate 10 (prose 25)"] line_shape_rule [of "replicate 10 (prose 40)"]
    by (simp add: t padded_facts)
qed

text \<open>
  Claim C6 as it is written fails on lines padded with spaces. Seven lines of the letter
  \<open>a\<close> and 39 spaces followed by three empty lines are 10 lines of trimmed length under
  30 with no marker phrase, and the classifier accepts the fragment: only 7 lines are
  counted. Ten such padded lines are 40 units long each, and the line-shape rule rejects
  the fragment: each counts as a line of length 1.
\<close>

theorem line_shape_rule_padded_lines:
  "length (trim padded) = 1 \<and> length padded = 40 \<and>
   length paddedSeven = 289 \<and> \<not> looksLikeJunk paddedSeven \<and>
   length paddedTen = 409 \<and> lineRule paddedTen"
  by (simp add: padded_facts paddedSeven_usable paddedTen_rejected)

section \<open>The run orchestrator: the model-query loop\<close>

text \<open>
  Claim C2. The loop sends at most 6 requests, all for the same book and the same fragment.
  An answer equal to \<open>SKIP\<close> moves on to the next attempt, and so does an answer that
  \<open>JSON.parse\<close> rejects or that has no \<open>cita\<close>; such an attempt adds a request to the record
  and nothing to the log or to the notifications. An answer with a truthy \<open>cita\<close> ends the
  loop: the entry is appended to the log and the success notification is shown (when
  neither call throws). When all 6 answers are of the first kind, the run ends with the
  notification \<open>Exhausted\<close>, which is not the error notification, and returns normally.
\<close>

theorem queryLoop_budget:
  "(\<exists>k\<le>6. queries (snd (queryLoop w b f 0 s)) = queries s @ replicate k (b, f)) \<and>
   (i < 6 \<and> chat w i b f = Inr c \<and> answerText c = units ''SKIP'' \<longrightarrow>
      queryLoop w b f i s = queryLoop w b f (i + 1) (sent b f s)) \<and>
   (i < 6 \<and> chat w i b f = Inr c \<and>
    (jsonParse w (answerText c) = None \<or> citaOf w (answerText c) = Undefined) \<longrightarrow>
      queryLoop w b f i s = queryLoop w b f (i + 1) (sent b f s)) \<and>
   shown (sent b f s) = shown s \<and> logged (sent b f s) = logged s \<and>
   queries (sent b f s) = queries s @ [(b, f)] \<and>
   (i < 6 \<and> chat w i b f = Inr c \<and> answerText c \<noteq> units ''SKIP'' \<and>
    truthy (citaOf w (answerText c)) \<and>
    appendFileSync w (citaOf w (answerText c)) (reflexionOf w (answerText c)) b = Inr filePath \<and>
    notifyThrows w (Quote (citaOf w (answerText c)) (reflexionOf w (answerText c)) b filePath) = None
    \<longrightarrow>
      queryLoop w b f i s =
        (Inr (),
         s\<lparr>queries := queries s @ [(b, f)],
            logged := logged s @
              [(filePath, citaOf w (answerText c), reflexionOf w (answerText c), b)],
            shown := shown s @
              [Quote (citaOf w (answerText c)) (reflexionOf w (answerText c)) b filePath]\<rparr>)) \<and>
   ((\<forall>j<6. \<exists>c. chat w j b f = Inr c \<and>
        (answerText c = units ''SKIP'' \<or> \<not> truthy (citaOf w (answerText c)))) \<and>
    notifyThrows w (Exhausted b) = None \<longrightarrow>
      queryLoop w b f 0 s =
        (Inr (), s\<lparr>queries := queries s @ replicate 6 (b, f),
                    shown := shown s @ [Exhausted b]\<rparr>))"
proof (intro conjI impI)
  show "\<exists>k\<le>6. queries (snd (queryLoop w b f 0 s)) = queries s @ replicate k (b, f)"
    using queryLoop_queries [of 0 w b f s] by simp
  show "queryLoop w b f i s = queryLoop w b f (i + 1) (sent b f s)"
    if "i < 6 \<and> chat w i b f = Inr c \<and> answerText c = units ''SKIP''"
    using that by (intro queryLoop_soft) auto
  show "queryLoop w b f i s = queryLoop w b f (i + 1) (sent b f s)"
    if h: "i < 6 \<and> chat w i b f = Inr c \<and>
        (jsonParse w (answerText c) = None \<or> citaOf w (answerText c) = Undefined)"
  proof -
    from h have "citaOf w (answerText c) = Undefined"
      by (auto simp: safeJsonParse_def)
    with h show ?thesis by (intro queryLoop_soft) auto
  qed
  show "shown (sent b f s) = shown s" "logged (sent b f s) = logged s"
    "queries (sent b f s) = queries s @ [(b, f)]"
    by simp_all
next
  assume h: "i < 6 \<and> chat w i b f = Inr c \<and> answerText c \<noteq> units ''SKIP'' \<and>
    truthy (citaOf w (answerText c)) \<and>
    appendFileSync w (citaOf w (answerText c)) (reflexionOf w (answerText c)) b = Inr filePath \<and>
    notifyThrows w (Quote (citaOf w (answerText c)) (reflexionOf w (answerText c)) b filePath) = None"
  then have "queryLoop w b f i s =
     (case saveQuoteToDailyMd w (citaOf w (answerText c)) (reflexionOf w (answerText c)) b
             (sent b f s) of
        (Inl e, s2) \<Rightarrow> (Inl e, s2)
      | (Inr filePath, s2) \<Rightarrow>
          notify w (Quote (citaOf w (answerText c)) (reflexionOf w (answerText c)) b filePath) s2)"
    by (intro queryLoop_quote) auto
  with h show "queryLoop w b f i s =
        (Inr (),
         s\<lparr>queries := queries s @ [(b, f)],
            logged := logged s @
              [(filePath, citaOf w (answerText c), reflexionOf w (answerText c), b)],
            shown := shown s @
              [Quote (citaOf w (answerText c)) (reflexionOf w (answerText c)) b filePath]\<rparr>)"
    by (simp add: saveQuoteToDailyMd_def notify_def sent_def)
next
  assume h: "(\<forall>j<6. \<exists>c. chat w j b f = Inr c \<and>
        (answerText c = units ''SKIP'' \<or> \<not> truthy (citaOf w (answerText c)))) \<and>
    notifyThrows w (Exhausted b) = None"
  then have "queryLoop w b f 0 s =
     notify w (Exhausted b) (s\<lparr>queries := queries s @ replicate (6 - 0) (b, f)\<rparr>)"
    by (intro queryLoop_all_soft) auto
  with h show "queryLoop w b f 0 s =
        (Inr (), s\<lparr>queries := queries s @ replicate 6 (b, f),
                    shown := shown s @ [Exhausted b]\<rparr>)"
    by (simp add: notify_def)
qed

theorem queryLoop_budget_witness:
  "chat goodWorld 0 book fragment3 = Inr (Some (units '' SKIP '')) \<and>
   answerText (Some (units '' SKIP '')) = units ''SKIP'' \<and>
   queryLoop goodWorld book fragment3 0 emptyState =
     queryLoop goodWorld book fragment3 1 (sent book fragment3 emptyState) \<and>
   chat goodWorld 1 book fragment3 = Inr (Some (units ''sorry'')) \<and>
   jsonParse goodWorld (answerText (Some (units ''sorry''))) = None \<and>
   queryLoop goodWorld book fragment3 1 emptyState =
     queryLoop goodWorld book fragment3 2 (sent book fragment3 emptyState) \<and>
   chat noCitaWorld 0 book fragment3 = Inr (Some noCitaJson) \<and>
   citaOf noCitaWorld (answerText (Some noCitaJson)) = Undefined \<and>
   queryLoop noCitaWorld book fragment3 0 emptyState =
     queryLoop noCitaWorld book fragment3 1 (sent book fragment3 emptyState) \<and>
   chat goodWorld 3 book fragment3 = Inr (Some quoteJson) \<and>
   citaOf goodWorld (answerText (Some quoteJson)) = Str (units ''X'') \<and>
   truthy (Str (units ''X'')) \<and>
   queryLoop goodWorld book fragment3 3 emptyState =
     (Inr (), \<lparr>shown = [Quote (Str (units ''X'')) (Str (units ''Y'')) book logPath],
               logged = [(logPath, Str (units ''X''), Str (units ''Y''), book)],
               queries = [(book, fragment3)]\<rparr>) \<and>
   queryLoop skipWorld book fragment3 0 emptyState =
     (Inr (), \<lparr>shown = [Exhausted book], logged = [],
               queries = replicate 6 (book, fragment3)\<rparr>)"
proof -
  have p: "safeJsonParse goodWorld quoteJson =
       Obj [(units ''cita'', Str (units ''X'')), (units ''reflexion'', Str (units ''Y''))]"
    by (simp add: safeJsonParse_def world_fields parse_evals)
  have q: "citaOf goodWorld (answerText (Some quoteJson)) = Str (units ''X'')"
      "reflexionOf goodWorld (answerText (Some quoteJson)) = Str (units ''Y'')"
    by (simp_all add: answer_evals p cita_evals del: getProp.simps)
  have x: "truthy (Str (units ''X''))" by (simp add: units_def)
  have c: "chat goodWorld 0 book fragment3 = Inr (Some (units '' SKIP ''))"
    "chat goodWorld 1 book fragment3 = Inr (Some (units ''sorry''))"
    "chat goodWorld 3 book fragment3 = Inr (Some quoteJson)"
    "\<And>j. chat skipWorld j book fragment3 = Inr (Some (units ''SKIP''))"
    by (simp_all add: goodWorld_def skipWorld_def)
  have n: "notifyThrows skipWorld = (\<lambda>_. None)" by (simp add: skipWorld_def goodWorld_def)
  have u: "chat noCitaWorld 0 book fragment3 = Inr (Some noCitaJson)"
    "citaOf noCitaWorld (answerText (Some noCitaJson)) = Undefined"
    by (simp_all add: noCitaWorld_def goodWorld_def safeJsonParse_def answer_evals parse_evals
        units_evals)
  note t = queryLoop_budget [where b = book and f = fragment3 and s = emptyState]
  have "queryLoop noCitaWorld book fragment3 0 emptyState =
     queryLoop noCitaWorld book fragment3 1 (sent book fragment3 emptyState)"
    using t [where w = noCitaWorld and i = 0 and c = "Some noCitaJson"] u
    by simp
  moreover
  have "queryLoop goodWorld book fragment3 0 emptyState =
     queryLoop goodWorld book fragment3 1 (sent book fragment3 emptyState)"
    using t [where w = goodWorld and i = 0 and c = "Some (units '' SKIP '')"] c
    by (simp add: answer_evals)
  moreover have "queryLoop goodWorld book fragment3 1 emptyState =
     queryLoop goodWorld book fragment3 2 (sent book fragment3 emptyState)"
    using t [where w = goodWorld and i = 1 and c = "Some (units ''sorry'')"] c
    by (simp add: answer_evals world_fields parse_evals numeral_2_eq_2)
  moreover have "queryLoop goodWorld book fragment3 3 emptyState =
     (Inr (), \<lparr>shown = [Quote (Str (units ''X'')) (Str (units ''Y'')) book logPath],
               logged = [(logPath, Str (units ''X''), Str (units ''Y''), book)],
               queries = [(book, fragment3)]\<rparr>)"
    using t [where w = goodWorld and i = 3 and c = "Some quoteJson" and filePath = logPath,
        unfolded q] c x
    by (simp add: answer_evals parse_evals world_fields emptyState_def)
  moreover have "queryLoop skipWorld book fragment3 0 emptyState =
     (Inr (), \<lparr>shown = [Exhausted book], logged = [],
               queries = replicate 6 (book, fragment3)\<rparr>)"
    using t [where w = skipWorld] c(4) n
    by (simp add: answer_evals emptyState_def)
  ultimately show ?thesis
    using c q x u by (simp add: answer_evals world_fields parse_evals del: getProp.simps)
qed

text \<open>
  Claim C9. An answer that parses as JSON and whose \<open>cita\<close> is falsy (the empty string,
  \<open>null\<close>, \<open>false\<close>, \<open>0\<close>, or missing) does not end the loop: the attempt is spent, the loop
  goes on with the next one, and at most \<open>6 - (i + 1)\<close> further requests follow.
\<close>

theorem falsy_quote_retries:
  "(i < 6 \<and> chat w i b f = Inr c \<and> jsonParse w (answerText c) = Some json \<and>
    \<not> truthy (getProp json (units ''cita'')) \<longrightarrow>
      queryLoop w b f i s = queryLoop w b f (i + 1) (sent b f s) \<and>
      (\<exists>k\<le>6 - (i + 1).
          queries (snd (queryLoop w b f i s)) = queries s @ (b, f) # replicate k (b, f))) \<and>
   \<not> truthy (Str []) \<and> \<not> truthy Null \<and> \<not> truthy Undefined \<and> \<not> truthy (Bool False) \<and>
   \<not> truthy (Num 0)"
proof (intro conjI impI)
  assume h: "i < 6 \<and> chat w i b f = Inr c \<and> jsonParse w (answerText c) = Some json \<and>
    \<not> truthy (getProp json (units ''cita''))"
  then have "\<not> truthy (citaOf w (answerText c))" by (simp add: safeJsonParse_def)
  with h show e: "queryLoop w b f i s = queryLoop w b f (i + 1) (sent b f s)"
    by (intro queryLoop_soft) auto
  show "\<exists>k\<le>6 - (i + 1).
          queries (snd (queryLoop w b f i s)) = queries s @ (b, f) # replicate k (b, f)"
    unfolding e using queryLoop_queries [of "i + 1" w b f "sent b f s"] by simp
qed simp_all

theorem falsy_quote_retries_witness:
  "chat goodWorld 2 book fragment3 = Inr (Some emptyJson) \<and>
   jsonParse goodWorld (answerText (Some emptyJson)) =
     Some (Obj [(units ''cita'', Str []), (units ''reflexion'', Str (units ''Y''))]) \<and>
   getProp (Obj [(units ''cita'', Str []), (units ''reflexion'', Str (units ''Y''))]) (units ''cita'')
     = Str [] \<and>
   queryLoop goodWorld book fragment3 2 emptyState =
     queryLoop goodWorld book fragment3 3 (sent book fragment3 emptyState) \<and>
   queryLoop goodWorld book fragment3 3 (sent book fragment3 emptyState) =
     (Inr (), \<lparr>shown = [Quote (Str (units ''X'')) (Str (units ''Y'')) book logPath],
               logged = [(logPath, Str (units ''X''), Str (units ''Y''), book)],
               queries = [(book, fragment3), (book, fragment3)]\<rparr>)"
proof -
  have c: "chat goodWorld 2 book fragment3 = Inr (Some emptyJson)"
    "chat goodWorld 3 book fragment3 = Inr (Some quoteJson)"
    by (simp_all add: goodWorld_def)
  have j: "jsonParse goodWorld (answerText (Some emptyJson)) =
     Some (Obj [(units ''cita'', Str []), (units ''reflexion'', Str (units ''Y''))])"
    by (simp add: world_fields answer_evals parse_evals)
  have g: "getProp (Obj [(units ''cita'', Str []), (units ''reflexion'', Str (units ''Y''))])
             (units ''cita'') = Str []"
    by (rule cita_evals)
  have "queryLoop goodWorld book fragment3 2 emptyState =
     queryLoop goodWorld book fragment3 3 (sent book fragment3 emptyState)"
    using falsy_quote_retries [where w = goodWorld and i = 2 and b = book and f = fragment3
        and c = "Some emptyJson" and s = emptyState
        and json = "Obj [(units ''cita'', Str []), (units ''reflexion'', Str (units ''Y''))]"]
      c(1) j
    by (simp add: g numeral_2_eq_2 numeral_3_eq_3 del: getProp.simps)
  moreover have "queryLoop goodWorld book fragment3 3 (sent book fragment3 emptyState) =
     (Inr (), \<lparr>shown = [Quote (Str (units ''X'')) (Str (units ''Y'')) book logPath],
               logged = [(logPath, Str (units ''X''), Str (units ''Y''), book)],
               queries = [(book, fragment3), (book, fragment3)]\<rparr>)"
  proof -
    have p: "safeJsonParse goodWorld quoteJson =
       Obj [(units ''cita'', Str (units ''X'')), (units ''reflexion'', Str (units ''Y''))]"
      by (simp add: safeJsonParse_def world_fields parse_evals)
    have q: "citaOf goodWorld (answerText (Some quoteJson)) = Str (units ''X'')"
      "reflexionOf goodWorld (answerText (Some quoteJson)) = Str (units ''Y'')"
      by (simp_all add: answer_evals p cita_evals del: getProp.simps)
    have x: "units ''X'' \<noteq> []" by (simp add: units_def)
    show ?thesis
      using queryLoop_quote [of 3 goodWorld book fragment3 "Some quoteJson"
          "sent book fragment3 emptyState", unfolded q] c(2) x
      by (simp add: answer_evals parse_evals saveQuoteToDailyMd_def notify_def world_fields
          sent_def emptyState_def)
  qed
  ultimately show ?thesis using c j g by simp
qed

section \<open>The run orchestrator: failures\<close>

text \<open>
  Claim C8, as the code has it. A failure thrown inside the \<open>try\<close> block of \<open>runOnce\<close> is
  caught and handed to the error notification: this holds for whatever the block throws,
  and the block does throw the failure of the directory listing, of the PDF extraction,
  of a request to the model (after any number of answers that only spend an attempt), of
  the append to the log and of the success notification. When the error notification
  does not throw, \<open>runOnce\<close> returns normally with that notification shown; when the
  error notification throws, its failure leaves \<open>runOnce\<close>.
\<close>

theorem runOnce_failures_caught:
  "(runBody w s = (Inl e, s') \<and> notifyThrows w (ErrorNote e) = None \<longrightarrow>
      runOnce w s = (Inr (), s'\<lparr>shown := shown s' @ [ErrorNote e]\<rparr>)) \<and>
   ((\<forall>e. notifyThrows w (ErrorNote e) = None) \<longrightarrow> fst (runOnce w s) = Inr ()) \<and>
   (runBody w s = (Inl e, s') \<and> notifyThrows w (ErrorNote e) = Some e' \<longrightarrow>
      runOnce w s = (Inl e', s')) \<and>
   (listPdfs w (BOOKS_DIR w) = Inl e \<longrightarrow>
      runBody w s = (Inl e, s) \<and> runOnce w s = notify w (ErrorNote e) s) \<and>
   (listPdfs w (BOOKS_DIR w) = Inr pdfs \<and> pdfs \<noteq> [] \<and>
    randomPick (bookDraw w) pdfs = Some chosen \<and> extractPdfText w chosen = Inl e \<longrightarrow>
      runBody w s = (Inl e, s) \<and> runOnce w s = notify w (ErrorNote e) s) \<and>
   (listPdfs w (BOOKS_DIR w) = Inr pdfs \<and> pdfs \<noteq> [] \<and>
    randomPick (bookDraw w) pdfs = Some chosen \<and> extractPdfText w chosen = Inr fullText \<and>
    pickFragment (fragDraws w) fullText = Some f \<and>
    i < 6 \<and> (\<forall>j<i. \<exists>c. chat w j (snd chosen) f = Inr c \<and> softAnswer w c) \<longrightarrow>
      (chat w i (snd chosen) f = Inl e \<longrightarrow>
         runBody w s = (Inl e, s\<lparr>queries := queries s @ replicate (Suc i) (snd chosen, f)\<rparr>) \<and>
         runOnce w s =
           notify w (ErrorNote e)
             (s\<lparr>queries := queries s @ replicate (Suc i) (snd chosen, f)\<rparr>)) \<and>
      (chat w i (snd chosen) f = Inr c \<and> answerText c \<noteq> units ''SKIP'' \<and>
       truthy (citaOf w (answerText c)) \<and>
       appendFileSync w (citaOf w (answerText c)) (reflexionOf w (answerText c)) (snd chosen)
         = Inl e \<longrightarrow>
         runBody w s = (Inl e, s\<lparr>queries := queries s @ replicate (Suc i) (snd chosen, f)\<rparr>) \<and>
         runOnce w s =
           notify w (ErrorNote e)
             (s\<lparr>queries := queries s @ replicate (Suc i) (snd chosen, f)\<rparr>)) \<and>
      (chat w i (snd chosen) f = Inr c \<and> answerText c \<noteq> units ''SKIP'' \<and>
       truthy (citaOf w (answerText c)) \<and>
       appendFileSync w (citaOf w (answerText c)) (reflexionOf w (answerText c)) (snd chosen)
         = Inr filePath \<and>
       notifyThrows w (Quote (citaOf w (answerText c)) (reflexionOf w (answerText c))
                         (snd chosen) filePath) = Some e \<longrightarrow>
         runBody w s =
           (Inl e, s\<lparr>queries := queries s @ replicate (Suc i) (snd chosen, f),
                      logged := logged s @
                        [(filePath, citaOf w (answerText c), reflexionOf w (answerText c),
                          snd chosen)]\<rparr>) \<and>
         runOnce w s =
           notify w (ErrorNote e)
             (s\<lparr>queries := queries s @ replicate (Suc i) (snd chosen, f),
                logged := logged s @
                  [(filePath, citaOf w (answerText c), reflexionOf w (answerText c),
                    snd chosen)]\<rparr>)))"
proof -
  have caught: "runBody w s = (Inl e, s') \<and> notifyThrows w (ErrorNote e) = None \<longrightarrow>
      runOnce w s = (Inr (), s'\<lparr>shown := shown s' @ [ErrorNote e]\<rparr>)"
    using runOnce_caught [of w s e s'] by blast
  have returns: "(\<forall>e. notifyThrows w (ErrorNote e) = None) \<longrightarrow> fst (runOnce w s) = Inr ()"
    using runOnce_returns [of w s] by blast
  have escapes: "runBody w s = (Inl e, s') \<and> notifyThrows w (ErrorNote e) = Some e' \<longrightarrow>
      runOnce w s = (Inl e', s')"
    by (simp add: runOnce_def notify_def)
  have listing: "listPdfs w (BOOKS_DIR w) = Inl e \<longrightarrow>
      runBody w s = (Inl e, s) \<and> runOnce w s = notify w (ErrorNote e) s"
    by (simp add: runBody_listing_fails runOnce_of_body)
  have extraction: "listPdfs w (BOOKS_DIR w) = Inr pdfs \<and> pdfs \<noteq> [] \<and>
    randomPick (bookDraw w) pdfs = Some chosen \<and> extractPdfText w chosen = Inl e \<longrightarrow>
      runBody w s = (Inl e, s) \<and> runOnce w s = notify w (ErrorNote e) s"
    using runBody_extract_fails [of w pdfs chosen e s] by (auto simp: runOnce_of_body)
  have loop: "P" if r: "listPdfs w (BOOKS_DIR w) = Inr pdfs \<and> pdfs \<noteq> [] \<and>
    randomPick (bookDraw w) pdfs = Some chosen \<and> extractPdfText w chosen = Inr fullText \<and>
    pickFragment (fragDraws w) fullText = Some f \<and>
    i < 6 \<and> (\<forall>j<i. \<exists>c. chat w j (snd chosen) f = Inr c \<and> softAnswer w c)"
    and p: "\<And>S. runBody w s = queryLoop w (snd chosen) f i
                (s\<lparr>queries := queries s @ replicate i (snd chosen, f)\<rparr>) \<Longrightarrow> i < 6 \<Longrightarrow> P"
    for P
  proof -
    from r have "runBody w s = queryLoop w (snd chosen) f 0 s"
      by (intro runBody_reaches_loop) auto
    also from r have "\<dots> = queryLoop w (snd chosen) f i
                (s\<lparr>queries := queries s @ replicate i (snd chosen, f)\<rparr>)"
      by (intro queryLoop_skip_soft) auto
    finally show P using p r by blast
  qed
  show ?thesis
  proof (intro conjI impI caught [rule_format] returns [rule_format] escapes [rule_format])
    show "runBody w s = (Inl e, s)" if "listPdfs w (BOOKS_DIR w) = Inl e"
      using that listing by blast
    show "runOnce w s = notify w (ErrorNote e) s" if "listPdfs w (BOOKS_DIR w) = Inl e"
      using that listing by blast
  qed (insert extraction, (auto elim!: loop
        simp: queryLoop_throw queryLoop_append_fails queryLoop_quote_note_fails sent_after
          runOnce_of_body)[1])+
qed


theorem runOnce_failures_caught_witness:
  "listPdfs noDirWorld (BOOKS_DIR noDirWorld) = Inl (Failure (units ''ENOENT'')) \<and>
   runOnce noDirWorld emptyState =
     (Inr (), \<lparr>shown = [ErrorNote (Failure (units ''ENOENT''))], logged = [], queries = []\<rparr>) \<and>
   extractPdfText badPdfWorld (units ''books'', book) = Inl (Failure (units ''bad XRef entry'')) \<and>
   runOnce badPdfWorld emptyState =
     (Inr (), \<lparr>shown = [ErrorNote (Failure (units ''bad XRef entry''))], logged = [],
               queries = []\<rparr>) \<and>
   chat offlineWorld 0 book fragment3 = Inl (Failure (units ''ECONNREFUSED'')) \<and>
   runOnce offlineWorld emptyState =
     (Inr (), \<lparr>shown = [ErrorNote (Failure (units ''ECONNREFUSED''))], logged = [],
               queries = [(book, fragment3)]\<rparr>) \<and>
   appendFileSync readOnlyWorld (Str (units ''X'')) (Str (units ''Y'')) book
     = Inl (Failure (units ''EACCES'')) \<and>
   runOnce readOnlyWorld emptyState =
     (Inr (), \<lparr>shown = [ErrorNote (Failure (units ''EACCES''))], logged = [],
               queries = replicate 4 (book, fragment3)\<rparr>) \<and>
   notifyThrows noQuoteNoteWorld (Quote (Str (units ''X'')) (Str (units ''Y'')) book logPath)
     = Some (Failure (units ''no notifier'')) \<and>
   runOnce noQuoteNoteWorld emptyState =
     (Inr (), \<lparr>shown = [ErrorNote (Failure (units ''no notifier''))],
               logged = [(logPath, Str (units ''X''), Str (units ''Y''), book)],
               queries = replicate 4 (book, fragment3)\<rparr>) \<and>
   notifyThrows noNotifierWorld (ErrorNote (Failure (units ''no notifier'')))
     = Some (Failure (units ''no notifier'')) \<and>
   fst (runOnce noNotifierWorld emptyState) = Inl (Failure (units ''no notifier'')) \<and>
   fst (runOnce goodWorld emptyState) = Inr ()"
proof -
  let ?ch = "(units ''books'', book)"
  note t = runOnce_failures_caught [where s = emptyState and pdfs = "[?ch]" and chosen = ?ch
      and fullText = proseDoc and f = fragment3]
  have l: "listPdfs noDirWorld (BOOKS_DIR noDirWorld) = Inl (Failure (units ''ENOENT''))"
    by (simp add: listPdfs_def noDirWorld_def)
  have "runOnce noDirWorld emptyState =
     (Inr (), \<lparr>shown = [ErrorNote (Failure (units ''ENOENT''))], logged = [], queries = []\<rparr>)"
    using t [where w = noDirWorld and e = "Failure (units ''ENOENT'')"] l
    by (simp add: notify_def noDirWorld_def world_fields emptyState_def)
  moreover
  have x1: "extractPdfText badPdfWorld ?ch = Inl (Failure (units ''bad XRef entry''))"
    by (simp add: extractPdfText_def badPdfWorld_def)
  have "runOnce badPdfWorld emptyState =
     (Inr (), \<lparr>shown = [ErrorNote (Failure (units ''bad XRef entry''))], logged = [],
               queries = []\<rparr>)"
    using t [where w = badPdfWorld and e = "Failure (units ''bad XRef entry'')"] x1
      derived_reach [of badPdfWorld]
    by (simp add: notify_def badPdfWorld_def world_fields emptyState_def)
  moreover
  have c0: "chat offlineWorld 0 book fragment3 = Inl (Failure (units ''ECONNREFUSED''))"
    by (simp add: offlineWorld_def)
  have "runOnce offlineWorld emptyState =
     (Inr (), \<lparr>shown = [ErrorNote (Failure (units ''ECONNREFUSED''))], logged = [],
               queries = [(book, fragment3)]\<rparr>)"
    using t [where w = offlineWorld and e = "Failure (units ''ECONNREFUSED'')" and i = 0] c0
      derived_reach [of offlineWorld] derived_fragment(1) [of offlineWorld ?ch] derived_fragment(2) [of offlineWorld]
    by (simp add: notify_def offlineWorld_def world_fields emptyState_def)
  moreover
  have a: "appendFileSync readOnlyWorld (Str (units ''X'')) (Str (units ''Y'')) book
     = Inl (Failure (units ''EACCES''))"
    by (simp add: readOnlyWorld_def)
  have x: "truthy (Str (units ''X''))" by (simp add: units_def)
  note r = derived_soft [where w = readOnlyWorld]
  have rq: "citaOf readOnlyWorld (answerText (Some quoteJson)) = Str (units ''X'')"
    "reflexionOf readOnlyWorld (answerText (Some quoteJson)) = Str (units ''Y'')"
    by (rule r; simp add: readOnlyWorld_def world_fields)+
  have "runOnce readOnlyWorld emptyState =
     (Inr (), \<lparr>shown = [ErrorNote (Failure (units ''EACCES''))], logged = [],
               queries = replicate 4 (book, fragment3)\<rparr>)"
    using t [where w = readOnlyWorld and e = "Failure (units ''EACCES'')" and i = 3
        and c = "Some quoteJson", unfolded rq] a x r(1,2)
      derived_reach [of readOnlyWorld] derived_fragment(1) [of readOnlyWorld ?ch] derived_fragment(2) [of readOnlyWorld]
    by (simp add: notify_def readOnlyWorld_def world_fields emptyState_def answer_evals
        parse_evals numeral_eq_Suc)
  moreover
  have n: "notifyThrows noQuoteNoteWorld (Quote (Str (units ''X'')) (Str (units ''Y'')) book logPath)
     = Some (Failure (units ''no notifier''))"
    "notifyThrows noQuoteNoteWorld (ErrorNote (Failure (units ''no notifier''))) = None"
    by (simp_all add: noQuoteNoteWorld_def)
  note q = derived_soft [where w = noQuoteNoteWorld]
  have qq: "citaOf noQuoteNoteWorld (answerText (Some quoteJson)) = Str (units ''X'')"
    "reflexionOf noQuoteNoteWorld (answerText (Some quoteJson)) = Str (units ''Y'')"
    by (rule q; simp add: noQuoteNoteWorld_def world_fields)+
  have "runOnce noQuoteNoteWorld emptyState =
     (Inr (), \<lparr>shown = [ErrorNote (Failure (units ''no notifier''))],
               logged = [(logPath, Str (units ''X''), Str (units ''Y''), book)],
               queries = replicate 4 (book, fragment3)\<rparr>)"
    using t [where w = noQuoteNoteWorld and e = "Failure (units ''no notifier'')" and i = 3
        and c = "Some quoteJson" and filePath = logPath, unfolded qq] n x q(1,2)
      derived_reach [of noQuoteNoteWorld] derived_fragment(1) [of noQuoteNoteWorld ?ch] derived_fragment(2) [of noQuoteNoteWorld]
    by (simp add: notify_def noQuoteNoteWorld_def world_fields emptyState_def answer_evals
        parse_evals numeral_eq_Suc)
  moreover
  have m: "notifyThrows noNotifierWorld (ErrorNote (Failure (units ''no notifier'')))
     = Some (Failure (units ''no notifier''))"
    by (simp add: noNotifierWorld_def)
  have "fst (runOnce noNotifierWorld emptyState) = Inl (Failure (units ''no notifier''))"
    using runOnce_failures_caught [where w = noNotifierWorld and s = emptyState
        and e = "Failure (units ''no notifier'')" and e' = "Failure (units ''no notifier'')",
        THEN conjunct2, THEN conjunct2, THEN conjunct1] m run_noNotifierWorld
    by simp
  moreover have "fst (runOnce goodWorld emptyState) = Inr ()"
    using runOnce_failures_caught [where w = goodWorld and s = emptyState,
        THEN conjunct2, THEN conjunct1]
    by (simp add: world_fields)
  ultimately show ?thesis using l x1 c0 a n m by simp
qed

text \<open>
  Claim C8 as it is written fails where the notifier itself is out of order: the success
  notification throws, the \<open>catch\<close> block calls the notifier again, that call throws too,
  and the failure leaves \<open>runOnce\<close>.
\<close>

theorem runOnce_notifier_failure_escapes:
  "runOnce noNotifierWorld emptyState =
     (Inl (Failure (units ''no notifier'')),
      \<lparr>shown = [], logged = [(logPath, Str (units ''X''), Str (units ''Y''), book)],
       queries = replicate 4 (book, fragment3)\<rparr>)"
  unfolding runOnce_def run_noNotifierWorld
  by (simp add: notify_def noNotifierWorld_def)


end
